theory Spec2Isabelle
  imports Main "HOL-Library.Word" "HOL-Library.Multiset"
begin

section \<open>duvis: records, comparators, parser and tree builders\<close>

text \<open>
  The development follows \<^verbatim>\<open>duvis.c\<close> function by function; the older revision of the
  same program (with its own \<^verbatim>\<open>fgets\<close> reader) is followed where it differs.

  Conventions of the embedding.
  \<^item> A C string is the list of its bytes before the terminating NUL.
  \<^item> A pointer into the array \<^verbatim>\<open>entries\<close> is the index of the element.
  \<^item> Whatever ends the process is a value of type \<open>failure\<close>: \<^verbatim>\<open>exit(1)\<close> after a
    diagnostic, a failed \<^verbatim>\<open>assert\<close>, and behaviour the C standard leaves undefined
    (an access outside an allocated object, the read of a value never written).
  \<^item> Every allocation is taken to succeed with a usable block, as on glibc also for
    a request of zero bytes: the \<^verbatim>\<open>perror\<close> exits after \<^verbatim>\<open>malloc\<close> and
    \<^verbatim>\<open>realloc\<close> are outside the model.
  \<^item> Component counts stay below \<^verbatim>\<open>DU_COMPONENTS_MAX\<close> (the parser asserts it) and
    indices below \<^verbatim>\<open>n_entries\<close>, an \<^verbatim>\<open>int\<close>; they are natural numbers here. Where
    the source subtracts from an unsigned count the wrap-around modulo \<open>2 ^ 32\<close> is
    written out. The size is a 64-bit word.
\<close>

subsection \<open>Failures\<close>

datatype line_diagnostic = Buffer_overrun | Format_error | Size_parse_failure

datatype index_diagnostic = Unexpected_entry | Missing_entry

datatype failure =
    Line_error line_diagnostic nat
  | Index_error index_diagnostic nat
  | Zero_length_entry
  | Assertion_failed
  | Undefined_behaviour

subsection \<open>Constants of the headers\<close>

definition DU_PATH_MAX :: nat where
  "DU_PATH_MAX = 4096"

definition DU_COMPONENTS_MAX :: nat where
  "DU_COMPONENTS_MAX = DU_PATH_MAX"

definition NUL :: char where
  "NUL = CHR 0x00"

definition NL :: char where
  "NL = CHR 0x0A"

subsection \<open>struct entry\<close>

text \<open>
  \<open>components\<close> holds the strings the pointers of the C array point to, and
  \<open>n_components\<close> is their number. \<open>depth\<close> is \<open>None\<close> until a builder writes it.
  \<open>children\<close> is the allocated array of child pointers, a cell being \<open>None\<close> until it
  is written; the null pointer is the array of no cells. The field \<^verbatim>\<open>path\<close>, kept only
  for a later \<^verbatim>\<open>free\<close>, is left out.
\<close>

record entry =
  size_e :: "64 word"
  components :: "string list"
  depth :: "nat option"
  n_children :: nat
  children :: "nat option list"

definition n_components :: "entry \<Rightarrow> nat" where
  "n_components e = length (components e)"

text \<open>The children a renderer walks: the first \<open>n_children\<close> cells of the array.\<close>

definition child_list :: "entry \<Rightarrow> nat list" where
  "child_list e = map the (take (n_children e) (children e))"

subsection \<open>Library functions\<close>

text \<open>
  \<^verbatim>\<open>strcmp\<close> compares bytes as \<^verbatim>\<open>unsigned char\<close>; only the sign of its result is
  specified, and the model returns \<open>-1\<close>, \<open>0\<close> or \<open>1\<close>.
\<close>

fun strcmp :: "string \<Rightarrow> string \<Rightarrow> int" where
  "strcmp [] [] = 0"
| "strcmp [] (y # ys) = - 1"
| "strcmp (x # xs) [] = 1"
| "strcmp (x # xs) (y # ys) =
     (if x = y then strcmp xs ys
      else if (of_char x :: nat) < of_char y then - 1 else 1)"

definition isdigit :: "char \<Rightarrow> bool" where
  "isdigit c = (48 \<le> (of_char c :: nat) \<and> (of_char c :: nat) \<le> 57)"

definition decimal :: "string \<Rightarrow> nat" where
  "decimal ds = foldl (\<lambda>a c. 10 * a + (of_char c - 48)) 0 ds"

text \<open>
  \<^verbatim>\<open>sscanf(path, "%" PRIu64, &size)\<close> on the text before the separator. The result is
  the number of conversions and the value stored. A value that does not fit the object
  is undefined behaviour in the C standard.
\<close>

definition sscanf_PRIu64 :: "string \<Rightarrow> failure + int \<times> 64 word" where
  "sscanf_PRIu64 s =
     (let ds = takeWhile isdigit s in
      if ds = [] then Inr (if s = [] then - 1 else 0, 0)
      else if decimal ds < 2 ^ 64 then Inr (1, word_of_nat (decimal ds))
      else Inl Undefined_behaviour)"

text \<open>
  \<^verbatim>\<open>qsort\<close> puts an array in ascending order of the comparison function; which
  pairs it compares is not specified. The model inserts each element into the sorted
  rest. A comparison that ends the process ends the sort.
\<close>

fun qsort_insert :: "('a \<Rightarrow> 'a \<Rightarrow> failure + int) \<Rightarrow> 'a \<Rightarrow> 'a list \<Rightarrow> failure + 'a list" where
  "qsort_insert cmp x [] = Inr [x]"
| "qsort_insert cmp x (y # ys) =
     (case cmp x y of
        Inl f \<Rightarrow> Inl f
      | Inr q \<Rightarrow>
          if q \<le> 0 then Inr (x # y # ys)
          else (case qsort_insert cmp x ys of
                  Inl f \<Rightarrow> Inl f
                | Inr zs \<Rightarrow> Inr (y # zs)))"

fun qsort :: "('a \<Rightarrow> 'a \<Rightarrow> failure + int) \<Rightarrow> 'a list \<Rightarrow> failure + 'a list" where
  "qsort cmp [] = Inr []"
| "qsort cmp (x # xs) =
     (case qsort cmp xs of
        Inl f \<Rightarrow> Inl f
      | Inr ys \<Rightarrow> qsort_insert cmp x ys)"

subsection \<open>compare_entries\<close>

text \<open>The loop of \<^verbatim>\<open>compare_entries\<close>: the first nonzero \<^verbatim>\<open>strcmp\<close> from index \<open>i\<close> on.\<close>

function compare_entries_loop :: "entry \<Rightarrow> entry \<Rightarrow> nat \<Rightarrow> int option" where
  "compare_entries_loop e1 e2 i =
     (if i < n_components e1 \<and> i < n_components e2 then
        (let q = strcmp (components e1 ! i) (components e2 ! i) in
         if q \<noteq> 0 then Some q else compare_entries_loop e1 e2 (i + 1))
      else None)"
  by pat_completeness auto
termination
  by (relation "measure (\<lambda>(e1, e2, i). n_components e1 - i)") auto

declare compare_entries_loop.simps [simp del]

definition compare_entries :: "entry \<Rightarrow> entry \<Rightarrow> failure + int" where
  "compare_entries e1 e2 =
     (let n1 = int (n_components e1); n2 = int (n_components e2) in
      case compare_entries_loop e1 e2 0 of
        Some q \<Rightarrow> Inr q
      | None \<Rightarrow> if n1 \<noteq> n2 then Inr (n1 - n2) else Inl Assertion_failed)"

subsection \<open>read_entries\<close>

text \<open>
  The parse of one line, the same text in both revisions: the run of digits, the
  separator, the size, and the path cut at every slash. \<open>split_path\<close> is the loop over
  the path: \<open>cur\<close> is the component being read and \<open>comps\<close> the finished ones, so that
  \<^verbatim>\<open>n_components\<close> is \<open>length comps + 1\<close>.
\<close>

fun split_path :: "string \<Rightarrow> string \<Rightarrow> string list \<Rightarrow> failure + string list" where
  "split_path [] cur comps = Inr (comps @ [cur])"
| "split_path (c # cs) cur comps =
     (if c = NL \<or> c = NUL then Inr (comps @ [cur])
      else if c = CHR ''/'' then
        (if length comps + 2 < DU_COMPONENTS_MAX then split_path cs [] (comps @ [cur])
         else Inl Assertion_failed)
      else split_path cs (cur @ [c]) comps)"

definition parse_line :: "nat \<Rightarrow> string \<Rightarrow> failure + entry" where
  "parse_line line_number path =
     (let digits = takeWhile isdigit path; rest = dropWhile isdigit path in
      if digits = [] \<or> rest = [] \<or> (hd rest \<noteq> CHR '' '' \<and> hd rest \<noteq> CHR 0x09) then
        Inl (Line_error Format_error line_number)
      else
        (case sscanf_PRIu64 digits of
           Inl f \<Rightarrow> Inl f
         | Inr (n_scanned, sz) \<Rightarrow>
             if n_scanned \<noteq> 1 then Inl (Line_error Size_parse_failure line_number)
             else
               (case split_path (tl rest) [] [] of
                  Inl f \<Rightarrow> Inl f
                | Inr comps \<Rightarrow>
                    Inr \<lparr>size_e = sz, components = comps, depth = None,
                         n_children = 0, children = []\<rparr>)))"

text \<open>
  \<^verbatim>\<open>duvis.c\<close> reads each line with \<^verbatim>\<open>path_get\<close> of \<^verbatim>\<open>pathmem.h\<close>, which is not
  among the sources. The reader therefore takes, in place of the stream, what the
  successive calls of \<^verbatim>\<open>path_get\<close> deliver: the count returned and the string left in
  the buffer. After the last of them \<^verbatim>\<open>path_get\<close> returns 0. The result carries the
  records and the line numbers of the path buffer overrun messages written to stderr.
\<close>

fun read_entries_loop ::
  "(int \<times> string) list \<Rightarrow> nat \<Rightarrow> entry list \<Rightarrow> nat list \<Rightarrow> failure + entry list \<times> nat list" where
  "read_entries_loop [] line_number es overruns = Inr (es, overruns)"
| "read_entries_loop ((nchars, path) # rest) line_number es overruns =
     (let overruns' = (if nchars = - 1 then overruns @ [line_number + 1] else overruns) in
      if nchars = 0 then Inr (es, overruns')
      else
        (case parse_line (line_number + 1) path of
           Inl f \<Rightarrow> Inl f
         | Inr e \<Rightarrow> read_entries_loop rest (line_number + 1) (es @ [e]) overruns'))"

definition read_entries :: "(int \<times> string) list \<Rightarrow> failure + entry list \<times> nat list" where
  "read_entries gets = read_entries_loop gets 0 [] []"

subsection \<open>Global state\<close>

record state =
  entries :: "entry list"
  root_entry :: nat
  base_depth :: nat

definition update_entry :: "state \<Rightarrow> nat \<Rightarrow> (entry \<Rightarrow> entry) \<Rightarrow> state" where
  "update_entry st k f = st\<lparr>entries := (entries st)[k := f (entries st ! k)]\<rparr>"

subsection \<open>compare_subtrees\<close>

definition compare_sizes :: "32 word \<Rightarrow> 32 word \<Rightarrow> int" where
  "compare_sizes s1 s2 = (if s1 < s2 then - 1 else if s1 > s2 then 1 else 0)"

definition compare_subtrees :: "state \<Rightarrow> nat \<Rightarrow> nat \<Rightarrow> failure + int" where
  "compare_subtrees st p1 p2 =
     (if p1 < length (entries st) \<and> p2 < length (entries st) then
        (let e1 = entries st ! p1; e2 = entries st ! p2;
             s1 = (ucast (size_e e1) :: 32 word);
             s2 = (ucast (size_e e2) :: 32 word);
             q = compare_sizes s2 s1
         in
           if q \<noteq> 0 then Inr q
           else
             (case (depth e1, depth e2) of
                (Some d1, Some d2) \<Rightarrow>
                  if d1 \<noteq> d2 then Inl Assertion_failed
                  else if 0 < d1 + base_depth st \<and>
                          d1 + base_depth st - 1 < n_components e1 \<and>
                          d1 + base_depth st - 1 < n_components e2 then
                    (let q = strcmp (components e1 ! (d1 + base_depth st - 1))
                                    (components e2 ! (d1 + base_depth st - 1))
                     in if q \<noteq> 0 then Inr q else Inl Assertion_failed)
                  else Inl Undefined_behaviour
              | _ \<Rightarrow> Inl Undefined_behaviour))
      else Inl Undefined_behaviour)"

subsection \<open>build_tree_preorder\<close>

text \<open>Pass 1, from index \<open>i\<close> on: count the direct children into \<^verbatim>\<open>e->n_children\<close>.\<close>

function count_pass :: "state \<Rightarrow> nat \<Rightarrow> nat \<Rightarrow> nat \<Rightarrow> nat \<Rightarrow> failure + state" where
  "count_pass st start end offset i =
     (if i < end then
        (if i < length (entries st) \<and> start < length (entries st) then
           count_pass
             (if n_components (entries st ! i) = offset + 1
              then update_entry st start (\<lambda>e. e\<lparr>n_children := n_children e + 1\<rparr>)
              else st)
             start end offset (i + 1)
         else Inl Undefined_behaviour)
      else Inr st)"
  by pat_completeness auto
termination
  by (relation "measure (\<lambda>(st, start, end, offset, i). end - i)") auto

declare count_pass.simps [simp del]

text \<open>The walk to the end of the subtree of \<open>entries[i]\<close>, from index \<open>j\<close> on.\<close>

function walk_subtree :: "state \<Rightarrow> nat \<Rightarrow> nat \<Rightarrow> nat \<Rightarrow> nat \<Rightarrow> failure + nat" where
  "walk_subtree st i end offset j =
     (if j < end then
        (if j < length (entries st) then
           (if n_components (entries st ! j) > offset + 1 then
              (if i < length (entries st) \<and>
                  offset < n_components (entries st ! i) \<and>
                  offset < n_components (entries st ! j) then
                 (if strcmp (components (entries st ! i) ! offset)
                            (components (entries st ! j) ! offset) = 0
                  then walk_subtree st i end offset (j + 1)
                  else Inr j)
               else Inl Undefined_behaviour)
            else Inr j)
         else Inl Undefined_behaviour)
      else Inr j)"
  by pat_completeness auto
termination
  by (relation "measure (\<lambda>(st, i, end, offset, j). end - j)") auto

declare walk_subtree.simps [simp del]

text \<open>
  The two stores of pass 2: \<^verbatim>\<open>e->children[n_children++] = &entries[i]\<close> and
  \<^verbatim>\<open>entries[i].depth = depth + 1\<close>.
\<close>

definition store_child :: "state \<Rightarrow> nat \<Rightarrow> nat \<Rightarrow> nat \<Rightarrow> nat \<Rightarrow> state" where
  "store_child st start n i depth' =
     update_entry
       (update_entry st start (\<lambda>e. e\<lparr>children := (children e)[n := Some i]\<rparr>))
       i (\<lambda>e. e\<lparr>depth := Some (depth' + 1)\<rparr>)"

text \<open>
  \<open>attach_pass\<close> is the loop of pass 2 at index \<open>i\<close> with \<open>n\<close> children stored so far;
  it returns the state and the final count.
\<close>

function build_tree_preorder :: "state \<Rightarrow> nat \<Rightarrow> nat \<Rightarrow> nat \<Rightarrow> failure + state"
  and attach_pass :: "state \<Rightarrow> nat \<Rightarrow> nat \<Rightarrow> nat \<Rightarrow> nat \<Rightarrow> nat \<Rightarrow> failure + state \<times> nat"
where
  "build_tree_preorder st start end depth' =
     (if start < length (entries st) then
        (let offset = depth' + base_depth st in
         if n_components (entries st ! start) \<noteq> offset then
           Inl (Index_error Unexpected_entry (start + 1))
         else
           (case count_pass (update_entry st start (\<lambda>e. e\<lparr>depth := Some depth'\<rparr>))
                   start end offset (start + 1) of
              Inl f \<Rightarrow> Inl f
            | Inr st1 \<Rightarrow>
                (case attach_pass
                        (update_entry st1 start
                           (\<lambda>e. e\<lparr>children := replicate (n_children e) None\<rparr>))
                        start end depth' (start + 1) 0 of
                   Inl f \<Rightarrow> Inl f
                 | Inr (st2, n) \<Rightarrow>
                     if n \<noteq> n_children (entries st2 ! start) then Inl Assertion_failed
                     else if n \<le> length (children (entries st2 ! start)) \<and>
                             list_all (\<lambda>c. c \<noteq> None) (take n (children (entries st2 ! start))) then
                       (case qsort (compare_subtrees st2)
                               (map the (take n (children (entries st2 ! start)))) of
                          Inl f \<Rightarrow> Inl f
                        | Inr cs \<Rightarrow>
                            Inr (update_entry st2 start
                                   (\<lambda>e. e\<lparr>children := map Some cs @ drop n (children e)\<rparr>)))
                     else Inl Undefined_behaviour)))
      else Inl Undefined_behaviour)"
| "attach_pass st start end depth' i n =
     (if i < end then
        (if i < length (entries st) \<and> start < length (entries st) then
           (let offset = depth' + base_depth st in
            if n_components (entries st ! i) \<noteq> offset + 1 then
              Inl (Index_error Missing_entry (i + 1))
            else if n < length (children (entries st ! start)) then
              (let st2 = store_child st start n i depth' in
                 case walk_subtree st2 i end offset (i + 1) of
                   Inl f \<Rightarrow> Inl f
                 | Inr j \<Rightarrow>
                     (case (if j > i + 1 then build_tree_preorder st2 i j (depth' + 1)
                            else Inr st2) of
                        Inl f \<Rightarrow> Inl f
                      | Inr st3 \<Rightarrow> attach_pass st3 start end depth' j (n + 1)))
            else Inl Undefined_behaviour)
         else Inl Undefined_behaviour)
      else Inr (st, n))"
  by pat_completeness auto
termination
proof -
  have walk: "walk_subtree st i e off j = Inr r \<Longrightarrow> j \<le> r \<and> r \<le> max j e"
    for st i e off j r
  proof (induction st i e off j rule: walk_subtree.induct)
    case (1 st i e off j)
    show ?case
    proof (cases "j < e \<and> j < length (entries st) \<and> i < length (entries st) \<and>
        n_components (entries st ! j) > off + 1 \<and> off < n_components (entries st ! i) \<and>
        off < n_components (entries st ! j) \<and>
        strcmp (components (entries st ! i) ! off) (components (entries st ! j) ! off) = 0")
      case True
      with "1.prems" have "walk_subtree st i e off (j + 1) = Inr r"
        by (subst (asm) walk_subtree.simps) simp
      with True have "j + 1 \<le> r \<and> r \<le> max (j + 1) e"
        by (intro "1.IH") auto
      with True show ?thesis by auto
    next
      case False
      with "1.prems" have "r = j"
        by (subst (asm) walk_subtree.simps) (auto split: if_splits)
      then show ?thesis by simp
    qed
  qed
  show ?thesis
  proof (relation "measure (\<lambda>x. case x of
            Inl (st, start, end, d) \<Rightarrow> 3 * (end - start) + 1
          | Inr (st, start, end, d, i, n) \<Rightarrow> 3 * (end - i) + (if i < end then 2 else 0))",
         goal_cases)
    case 1
    show ?case by simp
  next
    case 2
    then show ?case by (auto split: if_splits)
  next
    case 3
    then show ?case by (auto split: if_splits dest!: walk)
  next
    case 4
    then show ?case by (auto split: if_splits dest!: walk)
  qed
qed

declare build_tree_preorder.simps [simp del] attach_pass.simps [simp del]

subsection \<open>build_tree_postorder\<close>

text \<open>Subtraction and addition of \<^verbatim>\<open>uint32_t\<close> values, for \<open>a, b \<le> 2 ^ 32\<close>.\<close>

definition u32_sub :: "nat \<Rightarrow> nat \<Rightarrow> nat" where
  "u32_sub a b = (a + 2 ^ 32 - b) mod 2 ^ 32"

definition u32_add :: "nat \<Rightarrow> nat \<Rightarrow> nat" where
  "u32_add a b = (a + b) mod 2 ^ 32"

text \<open>
  The walk to the end of the subtree, from index \<open>j\<close> on; it counts into
  \<^verbatim>\<open>entries[j].n_children\<close> as it goes. \<open>offset\<close> is the unsigned
  \<^verbatim>\<open>entries[i].n_components - 2\<close>.
\<close>

function postorder_walk :: "state \<Rightarrow> nat \<Rightarrow> nat \<Rightarrow> nat \<Rightarrow> nat \<Rightarrow> failure + state \<times> nat" where
  "postorder_walk st i end offset j =
     (if j < end then
        (if j < length (entries st) then
           (if n_components (entries st ! j) < offset then
              (if i < length (entries st) \<and>
                  offset < n_components (entries st ! i) \<and>
                  offset < n_components (entries st ! j) then
                 (if strcmp (components (entries st ! i) ! offset)
                            (components (entries st ! j) ! offset) = 0
                  then postorder_walk
                         (update_entry st j (\<lambda>e. e\<lparr>n_children := n_children e + 1\<rparr>))
                         i end offset (j + 1)
                  else Inr (st, j))
               else Inl Undefined_behaviour)
            else Inr (st, j))
         else Inl Undefined_behaviour)
      else Inr (st, j))"
  by pat_completeness auto
termination
  by (relation "measure (\<lambda>(st, i, end, offset, j). end - j)") auto

declare postorder_walk.simps [simp del]

text \<open>
  The loop that fills \<^verbatim>\<open>entries[j].children\<close> from the indices \<open>k < j\<close>, with \<open>n\<close>
  cells written so far.
\<close>

function fill_children :: "state \<Rightarrow> nat \<Rightarrow> nat \<Rightarrow> nat \<Rightarrow> nat \<Rightarrow> failure + state" where
  "fill_children st j offset k n =
     (if k < j then
        (if k < length (entries st) then
           (if n_components (entries st ! k) = u32_add offset 2 then
              (if j < length (entries st) \<and> n < length (children (entries st ! j)) then
                 fill_children
                   (update_entry st j (\<lambda>e. e\<lparr>children := (children e)[n := Some k]\<rparr>))
                   j offset (k + 1) (n + 1)
               else Inl Undefined_behaviour)
            else fill_children st j offset (k + 1) n)
         else Inl Undefined_behaviour)
      else Inr st)"
  by pat_completeness auto
termination
  by (relation "measure (\<lambda>(st, j, offset, k, n). j - k)") auto

declare fill_children.simps [simp del]

text \<open>\<open>postorder_loop\<close> is the outer loop of \<^verbatim>\<open>build_tree_postorder\<close> at index \<open>i\<close>.\<close>

function build_tree_postorder :: "state \<Rightarrow> nat \<Rightarrow> nat \<Rightarrow> nat \<Rightarrow> failure + state"
  and postorder_loop :: "state \<Rightarrow> nat \<Rightarrow> nat \<Rightarrow> failure + state"
where
  "build_tree_postorder st start end depth' =
     (if start < length (entries st) then
        postorder_loop
          (update_entry st start (\<lambda>e. e\<lparr>depth := Some depth', n_children := 0\<rparr>))
          end start
      else Inl Undefined_behaviour)"
| "postorder_loop st end i =
     (if i < end then
        (if i < length (entries st) then
           (let offset = u32_sub (n_components (entries st ! i)) 2 in
            case postorder_walk st i end offset (i + 1) of
              Inl f \<Rightarrow> Inl f
            | Inr (st1, j) \<Rightarrow>
                (case (if j > i + 1
                       then build_tree_postorder st1 (i + 1) j
                              (u32_sub (n_components (entries st1 ! i)) 1)
                       else Inr st1) of
                   Inl f \<Rightarrow> Inl f
                 | Inr st2 \<Rightarrow>
                     if j < length (entries st2) then
                       (case fill_children
                               (update_entry st2 j
                                  (\<lambda>e. e\<lparr>children := replicate (n_children e) None\<rparr>))
                               j offset i 0 of
                          Inl f \<Rightarrow> Inl f
                        | Inr st3 \<Rightarrow> postorder_loop st3 end j)
                     else Inl Undefined_behaviour))
         else Inl Undefined_behaviour)
      else Inr st)"
  by pat_completeness auto
termination
proof -
  have walk: "postorder_walk st i e off j = Inr (st', r) \<Longrightarrow> j \<le> r \<and> r \<le> max j e"
    for st i e off j st' r
  proof (induction st i e off j rule: postorder_walk.induct)
    case (1 st i e off j)
    show ?case
    proof (cases "j < e \<and> j < length (entries st) \<and> n_components (entries st ! j) < off \<and>
        i < length (entries st) \<and> off < n_components (entries st ! i) \<and>
        off < n_components (entries st ! j) \<and>
        strcmp (components (entries st ! i) ! off) (components (entries st ! j) ! off) = 0")
      case True
      with "1.prems" have "postorder_walk
          (update_entry st j (\<lambda>e. e\<lparr>n_children := n_children e + 1\<rparr>)) i e off (j + 1) = Inr (st', r)"
        by (subst (asm) postorder_walk.simps) simp
      with True have "j + 1 \<le> r \<and> r \<le> max (j + 1) e"
        by (intro "1.IH") auto
      with True show ?thesis by auto
    next
      case False
      with "1.prems" have "r = j"
        by (subst (asm) postorder_walk.simps) (auto split: if_splits)
      then show ?thesis by simp
    qed
  qed
  show ?thesis
  proof (relation "measure (\<lambda>x. case x of
            Inl (st, start, end, d) \<Rightarrow> 2 * (end - start) + 1
          | Inr (st, end, i) \<Rightarrow> 2 * (end - i))",
         goal_cases)
    case 1
    show ?case by simp
  next
    case 2
    then show ?case by simp
  next
    case 3
    then show ?case by (auto split: if_splits dest!: walk)
  next
    case 4
    then show ?case by (auto split: if_splits dest!: walk)
  qed
qed

declare build_tree_postorder.simps [simp del] postorder_loop.simps [simp del]

subsection \<open>main\<close>

text \<open>
  \<^verbatim>\<open>main\<close> up to the finished tree; the rendering that follows is not part of the
  model. The result is \<open>None\<close> when \<^verbatim>\<open>main\<close> returns before building
  (\<^verbatim>\<open>n_entries == 0\<close>), and the final global state otherwise.
\<close>

definition main :: "bool \<Rightarrow> (int \<times> string) list \<Rightarrow> failure + state option" where
  "main pflag gets =
     (case read_entries gets of
        Inl f \<Rightarrow> Inl f
      | Inr (es, overruns) \<Rightarrow>
          if length es = 0 then Inr None
          else if pflag then
            (case qsort compare_entries es of
               Inl f \<Rightarrow> Inl f
             | Inr es' \<Rightarrow>
                 if n_components (es' ! 0) = 0 then Inl Zero_length_entry
                 else
                   map_sum id Some
                     (build_tree_preorder
                        \<lparr>entries = es', root_entry = 0,
                         base_depth = n_components (es' ! 0)\<rparr>
                        0 (length es') 0))
          else
            map_sum id Some
              (build_tree_postorder
                 \<lparr>entries = es, root_entry = length es - 1,
                  base_depth = n_components (es ! (length es - 1))\<rparr>
                 0 (length es) 0))"

subsection \<open>read_entries of the older revision\<close>

definition du_buffer_length :: nat where
  "du_buffer_length = 17 + 1 + (2 + DU_PATH_MAX) + 1"

text \<open>
  \<open>fgets_read room f\<close>: the bytes \<^verbatim>\<open>fgets\<close> takes from the stream \<open>f\<close> when the
  buffer has room for \<open>room\<close> of them before the NUL, and the rest of the stream.
\<close>

fun fgets_read :: "nat \<Rightarrow> string \<Rightarrow> string \<times> string" where
  "fgets_read 0 f = ([], f)"
| "fgets_read (Suc room) [] = ([], [])"
| "fgets_read (Suc room) (c # f) =
     (if c = NL then ([c], f)
      else (case fgets_read room f of (cs, f') \<Rightarrow> (c # cs, f')))"

text \<open>
  \<^verbatim>\<open>fgets(path, n, f)\<close> on a buffer whose cells are \<open>None\<close> until written: the
  bytes read, then a NUL; \<open>None\<close> for the null pointer it returns at end of input.
\<close>

definition fgets :: "char option list \<Rightarrow> nat \<Rightarrow> string \<Rightarrow> (char option list \<times> string) option" where
  "fgets path n f =
     (case fgets_read (n - 1) f of
        (cs, f') \<Rightarrow>
          if cs = [] then None
          else Some (map Some cs @ [Some NUL] @ drop (length cs + 1) path, f'))"

text \<open>The C string in a buffer: the bytes before the first NUL.\<close>

fun c_string :: "char option list \<Rightarrow> failure + string" where
  "c_string [] = Inl Undefined_behaviour"
| "c_string (None # cells) = Inl Undefined_behaviour"
| "c_string (Some c # cells) =
     (if c = NUL then Inr []
      else (case c_string cells of Inl f \<Rightarrow> Inl f | Inr s \<Rightarrow> Inr (c # s)))"

text \<open>
  The buffer of a line: \<^verbatim>\<open>malloc(du_buffer_length)\<close>, then
  \<^verbatim>\<open>path[du_buffer_length - 1] = '\0'\<close>.
\<close>

definition fresh_path :: "char option list" where
  "fresh_path = (replicate du_buffer_length None)[du_buffer_length - 1 := Some NUL]"

function read_entries_fgets_loop :: "string \<Rightarrow> nat \<Rightarrow> entry list \<Rightarrow> failure + entry list" where
  "read_entries_fgets_loop f line_number es =
     (case fgets fresh_path du_buffer_length f of
        None \<Rightarrow> Inr es
      | Some (path', f') \<Rightarrow>
          if path' ! (du_buffer_length - 1) \<noteq> Some NUL then
            Inl (Line_error Buffer_overrun (line_number + 1))
          else
            (case c_string path' of
               Inl e \<Rightarrow> Inl e
             | Inr s \<Rightarrow>
                 (case parse_line (line_number + 1) s of
                    Inl e \<Rightarrow> Inl e
                  | Inr e \<Rightarrow> read_entries_fgets_loop f' (line_number + 1) (es @ [e]))))"
  by pat_completeness auto
termination
proof -
  have shorter: "fgets_read room f = (cs, f') \<Longrightarrow>
      length f' \<le> length f \<and> (cs \<noteq> [] \<longrightarrow> length f' < length f)"
    for room f cs f'
    by (induction room f arbitrary: cs f' rule: fgets_read.induct)
       (auto split: if_splits prod.splits)
  show ?thesis
  proof (relation "measure (\<lambda>(f, line_number, es). length f)", goal_cases)
    case 1
    show ?case by simp
  next
    case (2 f line_number es x2 path' f' s e)
    then obtain cs where "fgets_read (du_buffer_length - 1) f = (cs, f')" "cs \<noteq> []"
      by (auto simp: fgets_def split: prod.splits if_splits)
    then show ?case using shorter by auto
  qed
qed

declare read_entries_fgets_loop.simps [simp del]

definition read_entries_fgets :: "string \<Rightarrow> failure + entry list" where
  "read_entries_fgets f = read_entries_fgets_loop f 0 []"

subsection \<open>Records for examples\<close>

definition rec_of :: "string list \<Rightarrow> entry" where
  "rec_of cs = \<lparr>size_e = 1, components = cs, depth = None, n_children = 0, children = []\<rparr>"

subsection \<open>Predicates of the proofs\<close>

definition builder_failure :: "failure \<Rightarrow> bool" where
  "builder_failure f \<longleftrightarrow>
     f = Undefined_behaviour \<or> f = Assertion_failed \<or> (\<exists>d k. f = Index_error d k)"

definition link_ok :: "state \<Rightarrow> nat \<Rightarrow> nat \<Rightarrow> bool" where
  "link_ok st p c \<longleftrightarrow>
     p < length (entries st) \<and> c < length (entries st) \<and>
     n_components (entries st ! c) = n_components (entries st ! p) + 1 \<and>
     (\<forall>x. base_depth st \<le> x \<and> x < n_components (entries st ! p) \<longrightarrow>
        components (entries st ! c) ! x = components (entries st ! p) ! x)"

definition same_records :: "state \<Rightarrow> state \<Rightarrow> bool" where
  "same_records st st' \<longleftrightarrow>
     length (entries st') = length (entries st) \<and> base_depth st' = base_depth st \<and>
     root_entry st' = root_entry st \<and>
     (\<forall>k<length (entries st).
        components (entries st' ! k) = components (entries st ! k) \<and>
        size_e (entries st' ! k) = size_e (entries st ! k))"

definition occurrences :: "state \<Rightarrow> nat \<Rightarrow> nat \<Rightarrow> nat \<Rightarrow> nat" where
  "occurrences st lo hi k = (\<Sum>p = lo..<hi. count_list (child_list (entries st ! p)) k)"

definition build_pre :: "state \<Rightarrow> nat \<Rightarrow> nat \<Rightarrow> nat \<Rightarrow> bool" where
  "build_pre st start end' d \<longleftrightarrow>
     start < end' \<and> end' \<le> length (entries st) \<and>
     (\<forall>p. start \<le> p \<and> p < end' \<longrightarrow> n_children (entries st ! p) = 0) \<and>
     (\<forall>k x. start < k \<and> k < end' \<and> base_depth st \<le> x \<and> x < d + base_depth st \<longrightarrow>
        components (entries st ! k) ! x = components (entries st ! start) ! x)"

definition build_post :: "state \<Rightarrow> state \<Rightarrow> nat \<Rightarrow> nat \<Rightarrow> bool" where
  "build_post st st' start end' \<longleftrightarrow>
     same_records st st' \<and>
     (\<forall>p. p < start \<or> end' \<le> p \<longrightarrow> entries st' ! p = entries st ! p) \<and>
     (\<forall>p c. start \<le> p \<and> p < end' \<and> c \<in> set (child_list (entries st' ! p)) \<longrightarrow> link_ok st p c) \<and>
     (\<forall>k. occurrences st' start end' k = (if start < k \<and> k < end' then 1 else 0))"

definition attach_pre :: "state \<Rightarrow> nat \<Rightarrow> nat \<Rightarrow> nat \<Rightarrow> nat \<Rightarrow> nat \<Rightarrow> bool" where
  "attach_pre st start end' d i n \<longleftrightarrow>
     start < i \<and> i \<le> end' \<and> end' \<le> length (entries st) \<and>
     n_components (entries st ! start) = d + base_depth st \<and>
     n \<le> length (children (entries st ! start)) \<and>
     (\<forall>p. i \<le> p \<and> p < end' \<longrightarrow> n_children (entries st ! p) = 0) \<and>
     (\<forall>k x. i \<le> k \<and> k < end' \<and> base_depth st \<le> x \<and> x < d + base_depth st \<longrightarrow>
        components (entries st ! k) ! x = components (entries st ! start) ! x)"

definition attach_post :: "state \<Rightarrow> state \<Rightarrow> nat \<Rightarrow> nat \<Rightarrow> nat \<Rightarrow> nat \<Rightarrow> nat \<Rightarrow> bool" where
  "attach_post st st' start end' i n n' \<longleftrightarrow>
     same_records st st' \<and>
     (\<forall>p. p \<noteq> start \<and> (p < i \<or> end' \<le> p) \<longrightarrow> entries st' ! p = entries st ! p) \<and>
     (\<exists>W. n' = n + length W \<and> n' \<le> length (children (entries st ! start)) \<and>
        entries st' ! start =
          (entries st ! start)\<lparr>children :=
             take n (children (entries st ! start)) @ map Some W @
             drop n' (children (entries st ! start))\<rparr> \<and>
        (\<forall>w\<in>set W. link_ok st start w) \<and>
        (\<forall>k. count_list W k + occurrences st' i end' k = (if i \<le> k \<and> k < end' then 1 else 0))) \<and>
     (\<forall>p c. i \<le> p \<and> p < end' \<and> c \<in> set (child_list (entries st' ! p)) \<longrightarrow> link_ok st p c)"

subsection \<open>Example inputs\<close>

definition scenario_A :: "(int \<times> string) list" where
  "scenario_A = [(6, ''100 a''), (7, ''40 a/x''), (7, ''60 a/y'')]"

definition tree_A :: state where
  "tree_A =
     \<lparr>entries =
        [\<lparr>size_e = 100, components = [''a''], depth = Some 0,
            n_children = 2, children = [Some 2, Some 1]\<rparr>,
         \<lparr>size_e = 40, components = [''a'', ''x''], depth = Some 1,
            n_children = 0, children = []\<rparr>,
         \<lparr>size_e = 60, components = [''a'', ''y''], depth = Some 1,
            n_children = 0, children = []\<rparr>],
      root_entry = 0, base_depth = 1\<rparr>"

section \<open>Theorems\<close>

subsection \<open>The comparators\<close>

lemma strcmp_eq_0_iff: "strcmp a b = 0 \<longleftrightarrow> a = b"
  by (induction a b rule: strcmp.induct) auto

lemma compare_entries_loop_nonzero:
  "compare_entries_loop e1 e2 i = Some q \<Longrightarrow> q \<noteq> 0"
proof (induction e1 e2 i rule: compare_entries_loop.induct)
  case (1 e1 e2 i)
  then show ?case
    by (subst (asm) (2) compare_entries_loop.simps) (auto simp: Let_def split: if_splits)
qed

lemma compare_entries_loop_first_difference:
  assumes "i0 \<le> i" "i < n_components e1" "i < n_components e2"
    and "\<forall>k. i0 \<le> k \<and> k < i \<longrightarrow> components e1 ! k = components e2 ! k"
    and "components e1 ! i \<noteq> components e2 ! i"
  shows "compare_entries_loop e1 e2 i0 = Some (strcmp (components e1 ! i) (components e2 ! i))"
  using assms
proof (induction "i - i0" arbitrary: i0)
  case 0
  then have "i0 = i" by simp
  with 0 show ?case
    by (subst compare_entries_loop.simps) (simp add: strcmp_eq_0_iff)
next
  case (Suc d)
  then have lt: "i0 < i" by simp
  with Suc.prems have eq: "components e1 ! i0 = components e2 ! i0" by simp
  have "compare_entries_loop e1 e2 (i0 + 1) = Some (strcmp (components e1 ! i) (components e2 ! i))"
    using Suc.hyps(2) Suc.prems lt by (intro Suc.hyps(1)) auto
  with lt Suc.prems eq show ?case
    by (subst compare_entries_loop.simps) (simp add: strcmp_eq_0_iff)
qed

lemma compare_entries_loop_all_equal:
  assumes "\<forall>k. i0 \<le> k \<and> k < n_components e1 \<and> k < n_components e2 \<longrightarrow>
             components e1 ! k = components e2 ! k"
  shows "compare_entries_loop e1 e2 i0 = None"
  using assms
proof (induction e1 e2 i0 rule: compare_entries_loop.induct)
  case (1 e1 e2 i)
  show ?case
  proof (cases "i < n_components e1 \<and> i < n_components e2")
    case True
    with "1.prems" have eq: "strcmp (components e1 ! i) (components e2 ! i) = 0"
      by (simp add: strcmp_eq_0_iff)
    have "compare_entries_loop e1 e2 (i + 1) = None"
      using True eq "1.prems" by (intro "1.IH" [OF True refl]) auto
    with True eq show ?thesis
      by (subst compare_entries_loop.simps) simp
  next
    case False
    then show ?thesis
      by (subst compare_entries_loop.simps) auto
  qed
qed

lemma strcmp_lexord:
  "strcmp s t = (if s = t then 0
     else if (s, t) \<in> lexord {(x, y). (of_char x :: nat) < of_char y} then - 1 else 1)"
  by (induction s t rule: strcmp.induct) auto

text \<open>
  C7. \<^verbatim>\<open>compare_entries\<close> compares the component sequences element by element with
  \<^verbatim>\<open>strcmp\<close>, a comparison of bytes, and returns the first nonzero result; when all
  compared components are equal and the counts differ it returns the difference of the
  counts, so that the record with fewer components sorts first; it never returns 0, and
  on two records with the same components it fails its assertion.
\<close>

theorem compare_entries_order:
  "(i < n_components e1 \<and> i < n_components e2 \<and>
      (\<forall>k<i. components e1 ! k = components e2 ! k) \<and>
      components e1 ! i \<noteq> components e2 ! i \<longrightarrow>
      compare_entries e1 e2 = Inr (strcmp (components e1 ! i) (components e2 ! i)) \<and>
      strcmp (components e1 ! i) (components e2 ! i) =
        (if (components e1 ! i, components e2 ! i) \<in> lexord {(x, y). (of_char x :: nat) < of_char y}
         then - 1 else 1)) \<and>
   ((\<forall>k. k < n_components e1 \<and> k < n_components e2 \<longrightarrow> components e1 ! k = components e2 ! k) \<and>
      n_components e1 \<noteq> n_components e2 \<longrightarrow>
      compare_entries e1 e2 = Inr (int (n_components e1) - int (n_components e2)) \<and>
      (n_components e1 < n_components e2 \<longleftrightarrow> int (n_components e1) - int (n_components e2) < 0)) \<and>
   compare_entries e1 e2 \<noteq> Inr 0 \<and>
   (components e1 = components e2 \<longrightarrow> compare_entries e1 e2 = Inl Assertion_failed)"
proof (intro conjI impI)
  assume h: "i < n_components e1 \<and> i < n_components e2 \<and>
      (\<forall>k<i. components e1 ! k = components e2 ! k) \<and>
      components e1 ! i \<noteq> components e2 ! i"
  then have "compare_entries_loop e1 e2 0 = Some (strcmp (components e1 ! i) (components e2 ! i))"
    by (intro compare_entries_loop_first_difference) auto
  then show "compare_entries e1 e2 = Inr (strcmp (components e1 ! i) (components e2 ! i))"
    by (simp add: compare_entries_def)
  from h show "strcmp (components e1 ! i) (components e2 ! i) =
        (if (components e1 ! i, components e2 ! i) \<in> lexord {(x, y). (of_char x :: nat) < of_char y}
         then - 1 else 1)"
    by (subst strcmp_lexord) simp
next
  assume h: "(\<forall>k. k < n_components e1 \<and> k < n_components e2 \<longrightarrow> components e1 ! k = components e2 ! k) \<and>
      n_components e1 \<noteq> n_components e2"
  then have "compare_entries_loop e1 e2 0 = None"
    by (intro compare_entries_loop_all_equal) auto
  with h show "compare_entries e1 e2 = Inr (int (n_components e1) - int (n_components e2))"
    by (simp add: compare_entries_def)
  show "(n_components e1 < n_components e2) = (int (n_components e1) - int (n_components e2) < 0)"
    by auto
next
  show "compare_entries e1 e2 \<noteq> Inr 0"
    by (auto simp: compare_entries_def Let_def split: option.splits if_splits
        dest: compare_entries_loop_nonzero)
next
  assume h: "components e1 = components e2"
  then have "compare_entries_loop e1 e2 0 = None"
    by (intro compare_entries_loop_all_equal) auto
  with h show "compare_entries e1 e2 = Inl Assertion_failed"
    by (simp add: compare_entries_def n_components_def)
qed

theorem compare_entries_order_witness:
  "compare_entries (rec_of [''a'', ''b'']) (rec_of [''a'', ''c'']) = Inr (- 1) \<and>
   compare_entries (rec_of [''a'']) (rec_of [''a'', ''c'']) = Inr (- 1) \<and>
   compare_entries (rec_of [''a'', ''c'']) (rec_of [''a'', ''c'']) = Inl Assertion_failed"
proof -
  let ?ab = "rec_of [''a'', ''b'']" and ?ac = "rec_of [''a'', ''c'']" and ?a = "rec_of [''a'']"
  have 1: "compare_entries ?ab ?ac = Inr (- 1)"
    using compare_entries_order [of 1 ?ab ?ac]
    by (simp add: rec_of_def n_components_def)
  have 2: "compare_entries ?a ?ac = Inr (- 1)"
    using compare_entries_order [of 0 ?a ?ac]
    by (simp add: rec_of_def n_components_def)
  have 3: "compare_entries ?ac ?ac = Inl Assertion_failed"
    using compare_entries_order [of 0 ?ac ?ac]
    by (simp add: rec_of_def n_components_def)
  from 1 2 3 show ?thesis by simp
qed

subsection \<open>Which failures a function can end in\<close>

lemma postorder_walk_failure:
  "postorder_walk st i end' off j = Inl f \<Longrightarrow> f = Undefined_behaviour"
proof (induction st i end' off j rule: postorder_walk.induct)
  case (1 st i end' off j)
  from "1.prems" show ?case
    by (subst (asm) postorder_walk.simps) (auto split: if_splits dest: "1.IH")
qed

lemma fill_children_failure:
  "fill_children st j off k n = Inl f \<Longrightarrow> f = Undefined_behaviour"
proof (induction st j off k n rule: fill_children.induct)
  case (1 st j off k n)
  from "1.prems" show ?case
    by (subst (asm) fill_children.simps) (auto split: if_splits dest: "1.IH" [simplified])
qed

lemma count_pass_failure:
  "count_pass st start end' off i = Inl f \<Longrightarrow> f = Undefined_behaviour"
proof (induction st start end' off i rule: count_pass.induct)
  case (1 st start end' off i)
  from "1.prems" show ?case
    by (subst (asm) count_pass.simps) (auto split: if_splits dest: "1.IH")
qed

lemma walk_subtree_failure:
  "walk_subtree st i end' off j = Inl f \<Longrightarrow> f = Undefined_behaviour"
proof (induction st i end' off j rule: walk_subtree.induct)
  case (1 st i end' off j)
  from "1.prems" show ?case
    by (subst (asm) walk_subtree.simps) (auto split: if_splits dest: "1.IH")
qed

lemma qsort_insert_failure:
  "qsort_insert cmp x ys = Inl f \<Longrightarrow> \<exists>y. cmp x y = Inl f"
  by (induction ys) (auto split: sum.splits if_splits)

lemma qsort_failure:
  "qsort cmp xs = Inl f \<Longrightarrow> \<exists>x y. cmp x y = Inl f"
  by (induction xs) (auto split: sum.splits dest!: qsort_insert_failure)

lemma compare_subtrees_failure:
  "compare_subtrees st p1 p2 = Inl f \<Longrightarrow> f = Undefined_behaviour \<or> f = Assertion_failed"
  by (auto simp: compare_subtrees_def Let_def split: if_splits option.splits)

lemma compare_entries_failure:
  "compare_entries e1 e2 = Inl f \<Longrightarrow> f = Assertion_failed"
  by (auto simp: compare_entries_def Let_def split: if_splits option.splits)


subsection \<open>Unfolding the pre-order builder\<close>

lemma attach_pass_unfold:
  "attach_pass st start end' d i n =
     (if \<not> i < end' then Inr (st, n)
      else if \<not> (i < length (entries st) \<and> start < length (entries st)) then Inl Undefined_behaviour
      else if n_components (entries st ! i) \<noteq> d + base_depth st + 1 then
        Inl (Index_error Missing_entry (i + 1))
      else if \<not> n < length (children (entries st ! start)) then Inl Undefined_behaviour
      else
        (case walk_subtree (store_child st start n i d) i end' (d + base_depth st) (i + 1) of
           Inl f \<Rightarrow> Inl f
         | Inr j \<Rightarrow>
             (case (if j > i + 1 then build_tree_preorder (store_child st start n i d) i j (d + 1)
                    else Inr (store_child st start n i d)) of
                Inl f \<Rightarrow> Inl f
              | Inr st3 \<Rightarrow> attach_pass st3 start end' d j (n + 1))))"
  by (subst attach_pass.simps) (simp add: Let_def)

lemma build_tree_preorder_unfold:
  "build_tree_preorder st start end' d =
     (if \<not> start < length (entries st) then Inl Undefined_behaviour
      else if n_components (entries st ! start) \<noteq> d + base_depth st then
        Inl (Index_error Unexpected_entry (start + 1))
      else
        (case count_pass (update_entry st start (\<lambda>e. e\<lparr>depth := Some d\<rparr>))
                start end' (d + base_depth st) (start + 1) of
           Inl f \<Rightarrow> Inl f
         | Inr st1 \<Rightarrow>
             (case attach_pass
                     (update_entry st1 start (\<lambda>e. e\<lparr>children := replicate (n_children e) None\<rparr>))
                     start end' d (start + 1) 0 of
                Inl f \<Rightarrow> Inl f
              | Inr (st2, n) \<Rightarrow>
                  if n \<noteq> n_children (entries st2 ! start) then Inl Assertion_failed
                  else if n \<le> length (children (entries st2 ! start)) \<and>
                          list_all (\<lambda>c. c \<noteq> None) (take n (children (entries st2 ! start))) then
                    (case qsort (compare_subtrees st2)
                            (map the (take n (children (entries st2 ! start)))) of
                       Inl f \<Rightarrow> Inl f
                     | Inr cs \<Rightarrow>
                         Inr (update_entry st2 start
                                (\<lambda>e. e\<lparr>children := map Some cs @ drop n (children e)\<rparr>)))
                  else Inl Undefined_behaviour)))"
  by (subst build_tree_preorder.simps) (simp add: Let_def)

lemma preorder_induct [case_names build attach]:
  assumes build: "\<And>st start end' d.
      (\<And>st1. \<lbrakk>start < length (entries st); n_components (entries st ! start) = d + base_depth st;
          count_pass (update_entry st start (\<lambda>e. e\<lparr>depth := Some d\<rparr>))
            start end' (d + base_depth st) (start + 1) = Inr st1\<rbrakk>
        \<Longrightarrow> Q (update_entry st1 start (\<lambda>e. e\<lparr>children := replicate (n_children e) None\<rparr>))
              start end' d (start + 1) 0)
      \<Longrightarrow> P st start end' d"
    and attach: "\<And>st start end' d i n.
      (\<And>j. \<lbrakk>i < end'; i < length (entries st); start < length (entries st);
          n_components (entries st ! i) = d + base_depth st + 1;
          n < length (children (entries st ! start));
          walk_subtree (store_child st start n i d) i end' (d + base_depth st) (i + 1) = Inr j;
          i + 1 < j\<rbrakk>
        \<Longrightarrow> P (store_child st start n i d) i j (d + 1)) \<Longrightarrow>
      (\<And>j st3. \<lbrakk>i < end'; i < length (entries st); start < length (entries st);
          n_components (entries st ! i) = d + base_depth st + 1;
          n < length (children (entries st ! start));
          walk_subtree (store_child st start n i d) i end' (d + base_depth st) (i + 1) = Inr j;
          (if i + 1 < j then build_tree_preorder (store_child st start n i d) i j (d + 1)
           else Inr (store_child st start n i d)) = Inr st3\<rbrakk>
        \<Longrightarrow> Q st3 start end' d j (n + 1))
      \<Longrightarrow> Q st start end' d i n"
  shows "P st start end' d" and "Q st start end' d i n"
proof (induction st start end' d and st start end' d i n
    rule: build_tree_preorder_attach_pass.induct)
  case (1 st start end' d)
  show ?case
    by (rule build) (rule "1.IH", simp_all)
next
  case (2 st start end' d i n)
  show ?case
  proof (rule attach, goal_cases)
    case (1 j)
    then show ?case by (intro "2.IH" (1)) simp_all
  next
    case (2 j st3)
    then show ?case by (intro "2.IH" (2)) simp_all
  qed
qed

lemma preorder_failure:
  "build_tree_preorder st start end' d = Inl f \<Longrightarrow> builder_failure f"
  "attach_pass st start end' d i n = Inl f \<Longrightarrow> builder_failure f"
proof (induction st start end' d and st start end' d i n rule: preorder_induct)
  case (build st start end' d)
  from build.prems show ?case
    by (subst (asm) build_tree_preorder_unfold)
       (auto simp: builder_failure_def split: if_splits sum.splits prod.splits
          dest: build.IH count_pass_failure compare_subtrees_failure dest!: qsort_failure)
next
  case (attach st start end' d i n)
  show ?case
  proof (cases "walk_subtree (store_child st start n i d) i end' (d + base_depth st) (i + 1)")
    case (Inl g)
    with attach.prems show ?thesis
      by (subst (asm) attach_pass_unfold)
         (auto simp: builder_failure_def split: if_splits dest: walk_subtree_failure)
  next
    case (Inr j)
    show ?thesis
    proof (cases "if i + 1 < j then build_tree_preorder (store_child st start n i d) i j (d + 1)
           else Inr (store_child st start n i d)")
      case (Inl g)
      with Inr attach.prems attach.IH (1) [of j] show ?thesis
        by (subst (asm) attach_pass_unfold)
           (auto simp: builder_failure_def split: if_splits)
    next
      case st3: (Inr st3)
      with Inr attach.prems attach.IH (2) [of j st3] show ?thesis
        by (subst (asm) attach_pass_unfold)
           (auto simp: builder_failure_def split: if_splits)
    qed
  qed
qed

subsection \<open>Stores into the array of entries\<close>

lemma update_entry_simps [simp]:
  "length (entries (update_entry st k f)) = length (entries st)"
  "base_depth (update_entry st k f) = base_depth st"
  "root_entry (update_entry st k f) = root_entry st"
  by (simp_all add: update_entry_def)

lemma update_entry_nth:
  "entries (update_entry st k f) ! m =
     (if m = k \<and> k < length (entries st) then f (entries st ! k) else entries st ! m)"
  by (cases "k < length (entries st)") (auto simp: update_entry_def not_less list_update_beyond)

lemma store_child_simps [simp]:
  "length (entries (store_child st start n i d)) = length (entries st)"
  "base_depth (store_child st start n i d) = base_depth st"
  "root_entry (store_child st start n i d) = root_entry st"
  by (simp_all add: store_child_def)

lemma store_child_nth:
  "start \<noteq> i \<Longrightarrow> entries (store_child st start n i d) ! m =
     (if m = i \<and> i < length (entries st) then (entries st ! i)\<lparr>depth := Some (d + 1)\<rparr>
      else if m = start \<and> start < length (entries st) then
        (entries st ! start)\<lparr>children := (children (entries st ! start))[n := Some i]\<rparr>
      else entries st ! m)"
  by (simp add: store_child_def update_entry_nth)

subsection \<open>Pass 1 and the walk\<close>

lemma count_pass_result:
  "count_pass st start end' off i = Inr st' \<Longrightarrow>
     \<exists>c. st' = update_entry st start (\<lambda>e. e\<lparr>n_children := c\<rparr>)"
proof (induction st start end' off i rule: count_pass.induct)
  case (1 st start end' off i)
  show ?case
  proof (cases "i < end'")
    case False
    with "1.prems" have "st' = st"
      by (subst (asm) count_pass.simps) simp
    then have "st' = update_entry st start (\<lambda>e. e\<lparr>n_children := n_children (entries st ! start)\<rparr>)"
      by (simp add: update_entry_def)
    then show ?thesis ..
  next
    case True
    let ?st = "if n_components (entries st ! i) = off + 1
              then update_entry st start (\<lambda>e. e\<lparr>n_children := n_children e + 1\<rparr>) else st"
    from True "1.prems" have bounds: "i < length (entries st) \<and> start < length (entries st)"
      and rec: "count_pass ?st start end' off (i + 1) = Inr st'"
      by (subst (asm) count_pass.simps, simp split: if_splits)+
    from "1.IH" [OF True bounds rec] obtain c
      where "st' = update_entry ?st start (\<lambda>e. e\<lparr>n_children := c\<rparr>)" ..
    then have "st' = update_entry st start (\<lambda>e. e\<lparr>n_children := c\<rparr>)"
      using bounds by (auto simp: update_entry_def)
    then show ?thesis ..
  qed
qed

lemma walk_subtree_result:
  "walk_subtree st i end' off j0 = Inr j \<Longrightarrow>
     j0 \<le> j \<and> j \<le> max j0 end' \<and>
     (\<forall>k. j0 \<le> k \<and> k < j \<longrightarrow>
        k < length (entries st) \<and> off + 1 < n_components (entries st ! k) \<and>
        components (entries st ! k) ! off = components (entries st ! i) ! off)"
proof (induction st i end' off j0 rule: walk_subtree.induct)
  case (1 st i end' off j0)
  show ?case
  proof (cases "j0 < end' \<and> j0 < length (entries st) \<and> off + 1 < n_components (entries st ! j0) \<and>
      i < length (entries st) \<and> off < n_components (entries st ! i) \<and>
      off < n_components (entries st ! j0) \<and>
      strcmp (components (entries st ! i) ! off) (components (entries st ! j0) ! off) = 0")
    case True
    with "1.prems" have rec: "walk_subtree st i end' off (j0 + 1) = Inr j"
      by (subst (asm) walk_subtree.simps) simp
    with True have IH: "j0 + 1 \<le> j \<and> j \<le> max (j0 + 1) end' \<and>
      (\<forall>k. j0 + 1 \<le> k \<and> k < j \<longrightarrow>
        k < length (entries st) \<and> off + 1 < n_components (entries st ! k) \<and>
        components (entries st ! k) ! off = components (entries st ! i) ! off)"
      by (intro "1.IH") auto
    from True have here: "components (entries st ! j0) ! off = components (entries st ! i) ! off"
      by (simp add: strcmp_eq_0_iff)
    have "k < length (entries st) \<and> off + 1 < n_components (entries st ! k) \<and>
        components (entries st ! k) ! off = components (entries st ! i) ! off"
      if "j0 \<le> k" "k < j" for k
    proof (cases "k = j0")
      case True
      with \<open>j0 < end' \<and> _\<close> here show ?thesis by simp
    next
      case False
      with that IH show ?thesis by simp
    qed
    with IH True show ?thesis by auto
  next
    case False
    with "1.prems" have "j = j0"
      by (subst (asm) walk_subtree.simps) (auto split: if_splits)
    then show ?thesis by auto
  qed
qed

subsection \<open>qsort permutes\<close>

lemma qsort_insert_mset:
  "qsort_insert cmp x ys = Inr zs \<Longrightarrow> mset zs = add_mset x (mset ys)"
  by (induction ys arbitrary: zs) (auto split: sum.splits if_splits)

lemma qsort_mset: "qsort cmp xs = Inr ys \<Longrightarrow> mset ys = mset xs"
  by (induction xs arbitrary: ys) (auto split: sum.splits dest: qsort_insert_mset)

subsection \<open>The tree of the pre-order builder\<close>

lemma same_records_refl: "same_records st st"
  by (simp add: same_records_def)

lemma same_records_trans:
  "same_records a b \<Longrightarrow> same_records b c \<Longrightarrow> same_records a c"
  by (simp add: same_records_def)

lemma same_records_update_entry:
  assumes "\<And>e. components (f e) = components e" "\<And>e. size_e (f e) = size_e e"
  shows "same_records st (update_entry st k f)"
  using assms by (simp add: same_records_def update_entry_nth)

lemma same_records_store_child: "same_records st (store_child st start n i d)"
  unfolding store_child_def
  by (rule same_records_trans; rule same_records_update_entry) simp_all

lemma link_ok_same_records:
  "same_records st st' \<Longrightarrow> link_ok st' p c = link_ok st p c"
  by (auto simp: same_records_def link_ok_def n_components_def)

lemma occurrences_cong:
  "(\<And>p. lo \<le> p \<Longrightarrow> p < hi \<Longrightarrow> entries st' ! p = entries st ! p) \<Longrightarrow>
     occurrences st' lo hi k = occurrences st lo hi k"
  by (simp add: occurrences_def)

lemma occurrences_split:
  "lo \<le> mid \<Longrightarrow> mid \<le> hi \<Longrightarrow>
     occurrences st lo hi k = occurrences st lo mid k + occurrences st mid hi k"
  by (simp add: occurrences_def sum.atLeastLessThan_concat)

lemma occurrences_first:
  "lo < hi \<Longrightarrow> occurrences st lo hi k =
     count_list (child_list (entries st ! lo)) k + occurrences st (lo + 1) hi k"
  by (simp add: occurrences_def sum.atLeast_Suc_lessThan)

lemma occurrences_fresh:
  "(\<And>p. lo \<le> p \<Longrightarrow> p < hi \<Longrightarrow> n_children (entries st ! p) = 0) \<Longrightarrow>
     occurrences st lo hi k = 0"
  by (simp add: occurrences_def child_list_def)

lemma occurrences_empty [simp]: "occurrences st lo lo k = 0"
  by (simp add: occurrences_def)

lemma attach_postI:
  assumes "same_records st st'"
    and "\<And>p. p \<noteq> start \<Longrightarrow> p < i \<or> end' \<le> p \<Longrightarrow> entries st' ! p = entries st ! p"
    and "\<exists>W. n' = n + length W \<and> n' \<le> length (children (entries st ! start)) \<and>
        entries st' ! start =
          (entries st ! start)\<lparr>children :=
             take n (children (entries st ! start)) @ map Some W @
             drop n' (children (entries st ! start))\<rparr> \<and>
        (\<forall>w\<in>set W. link_ok st start w) \<and>
        (\<forall>k. count_list W k + occurrences st' i end' k = (if i \<le> k \<and> k < end' then 1 else 0))"
    and "\<And>p c. i \<le> p \<Longrightarrow> p < end' \<Longrightarrow> c \<in> set (child_list (entries st' ! p)) \<Longrightarrow> link_ok st p c"
  shows "attach_post st st' start end' i n n'"
  unfolding attach_post_def
proof (intro conjI allI impI)
  show "same_records st st'" by (rule assms(1))
  show "entries st' ! p = entries st ! p" if "p \<noteq> start \<and> (p < i \<or> end' \<le> p)" for p
    using that by (intro assms(2)) simp_all
  show "\<exists>W. n' = n + length W \<and> n' \<le> length (children (entries st ! start)) \<and>
        entries st' ! start =
          (entries st ! start)\<lparr>children :=
             take n (children (entries st ! start)) @ map Some W @
             drop n' (children (entries st ! start))\<rparr> \<and>
        (\<forall>w\<in>set W. link_ok st start w) \<and>
        (\<forall>k. count_list W k + occurrences st' i end' k = (if i \<le> k \<and> k < end' then 1 else 0))"
    by (rule assms(3))
  show "link_ok st p c" if "i \<le> p \<and> p < end' \<and> c \<in> set (child_list (entries st' ! p))" for p c
    using that by (intro assms(4)) simp_all
qed

lemma build_postI:
  assumes "same_records st st'"
    and "\<And>p. p < start \<or> end' \<le> p \<Longrightarrow> entries st' ! p = entries st ! p"
    and "\<And>p c. start \<le> p \<Longrightarrow> p < end' \<Longrightarrow> c \<in> set (child_list (entries st' ! p)) \<Longrightarrow> link_ok st p c"
    and "\<And>k. occurrences st' start end' k = (if start < k \<and> k < end' then 1 else 0)"
  shows "build_post st st' start end'"
  unfolding build_post_def
proof (intro conjI allI impI)
  show "same_records st st'" by (rule assms(1))
  show "entries st' ! p = entries st ! p" if "p < start \<or> end' \<le> p" for p
    using that by (rule assms(2))
  show "link_ok st p c" if "start \<le> p \<and> p < end' \<and> c \<in> set (child_list (entries st' ! p))" for p c
    using that by (intro assms(3)) simp_all
  show "occurrences st' start end' k = (if start < k \<and> k < end' then 1 else 0)" for k
    by (rule assms(4))
qed

lemma build_post_leaf:
  assumes "n_children (entries st ! i) = 0"
  shows "build_post st st i (i + 1)"
proof -
  have "child_list (entries st ! i) = []"
    using assms by (simp add: child_list_def)
  moreover have "occurrences st i (i + 1) k = 0" for k
    using assms by (intro occurrences_fresh) (simp add: le_less_Suc_eq)
  ultimately show ?thesis
    by (intro build_postI same_records_refl) (simp_all add: le_less_Suc_eq)
qed

lemma attach_post_done:
  assumes "attach_pre st start end' d i n" "\<not> i < end'"
  shows "attach_post st st start end' i n n"
proof -
  from assms have "i = end'" by (simp add: attach_pre_def)
  have "n = n + length ([] :: nat list) \<and> n \<le> length (children (entries st ! start)) \<and>
        entries st ! start =
          (entries st ! start)\<lparr>children :=
             take n (children (entries st ! start)) @ map Some [] @
             drop n (children (entries st ! start))\<rparr> \<and>
        (\<forall>w\<in>set ([] :: nat list). link_ok st start w) \<and>
        (\<forall>k. count_list [] k + occurrences st i end' k = (if i \<le> k \<and> k < end' then 1 else 0))"
    using assms \<open>i = end'\<close> by (simp add: attach_pre_def)
  then have "\<exists>W. n = n + length W \<and> n \<le> length (children (entries st ! start)) \<and>
        entries st ! start =
          (entries st ! start)\<lparr>children :=
             take n (children (entries st ! start)) @ map Some W @
             drop n (children (entries st ! start))\<rparr> \<and>
        (\<forall>w\<in>set W. link_ok st start w) \<and>
        (\<forall>k. count_list W k + occurrences st i end' k = (if i \<le> k \<and> k < end' then 1 else 0))"
    by (rule exI [where x = "[]"])
  then show ?thesis
    using \<open>i = end'\<close> by (intro attach_postI same_records_refl) simp_all
qed

lemma preorder_tree:
  "build_tree_preorder st start end' d = Inr st' \<Longrightarrow> build_pre st start end' d \<Longrightarrow>
     build_post st st' start end'"
  "attach_pass st start end' d i n = Inr (st', n') \<Longrightarrow> attach_pre st start end' d i n \<Longrightarrow>
     attach_post st st' start end' i n n'"
proof (induction st start end' d and st start end' d i n arbitrary: st' and st' n'
    rule: preorder_induct)
  case (attach st start end' d i n)
  note pre = attach.prems(2) [unfolded attach_pre_def]
  show ?case
  proof (cases "i < end'")
    case False
    with attach.prems(1) have "st' = st" "n' = n"
      by (subst (asm) attach_pass_unfold, simp)+
    with attach.prems(2) False show ?thesis
      by (simp add: attach_post_done)
  next
    case True
    define st2 where "st2 = store_child st start n i d"
    define cs where "cs = children (entries st ! start)"
    from pre True have c1: "i < length (entries st)" "start < length (entries st)" "start \<noteq> i"
      by auto
    from attach.prems(1) True obtain j st3 where
      c2: "n_components (entries st ! i) = d + base_depth st + 1" "n < length cs"
      and walk: "walk_subtree st2 i end' (d + base_depth st) (i + 1) = Inr j"
      and sub: "(if i + 1 < j then build_tree_preorder st2 i j (d + 1) else Inr st2) = Inr st3"
      and rest: "attach_pass st3 start end' d j (n + 1) = Inr (st', n')"
      by (subst (asm) attach_pass_unfold)
         (auto simp: st2_def cs_def split: if_splits sum.splits)
    note w = walk_subtree_result [OF walk]
    from w True have j: "i + 1 \<le> j" "j \<le> end'" by auto
    have st2_nth: "entries st2 ! p =
        (if p = i then (entries st ! i)\<lparr>depth := Some (d + 1)\<rparr>
         else if p = start then (entries st ! start)\<lparr>children := cs[n := Some i]\<rparr>
         else entries st ! p)" for p
      using c1 by (simp add: st2_def cs_def store_child_nth)
    have sr2: "same_records st st2"
      unfolding st2_def by (rule same_records_store_child)
    have len2: "length (entries st2) = length (entries st)" "base_depth st2 = base_depth st"
      by (simp_all add: st2_def)
    have comps2: "components (entries st2 ! p) = components (entries st ! p)" for p
      by (simp add: st2_nth)
    have nch2: "n_children (entries st2 ! p) = n_children (entries st ! p)" for p
      by (simp add: st2_nth)
    have post3: "build_post st2 st3 i j"
    proof (cases "i + 1 < j")
      case False
      with j sub have "j = i + 1" "st3 = st2" by auto
      moreover have "n_children (entries st2 ! i) = 0"
        using pre True by (simp add: nch2)
      ultimately show ?thesis using build_post_leaf [of st2 i] by simp
    next
      case deeper: True
      with sub have b: "build_tree_preorder st2 i j (d + 1) = Inr st3" by simp
      have "components (entries st2 ! k) ! x = components (entries st2 ! i) ! x"
        if "i < k" "k < j" "base_depth st2 \<le> x" "x < d + 1 + base_depth st2" for k x
      proof (cases "x = d + base_depth st")
        case True
        with w that show ?thesis by simp
      next
        case False
        with that len2 have x: "base_depth st \<le> x" "x < d + base_depth st" by auto
        from pre x that j True have "components (entries st ! k) ! x = components (entries st ! start) ! x"
          "components (entries st ! i) ! x = components (entries st ! start) ! x"
          by auto
        then show ?thesis by (simp add: comps2)
      qed
      then have "build_pre st2 i j (d + 1)"
        using pre j deeper True by (auto simp: build_pre_def len2 nch2)
      with b show ?thesis
        using attach.IH(1) [of j st3] True c1 c2 walk deeper
        by (simp add: st2_def cs_def)
    qed
    note p3 = post3 [unfolded build_post_def]
    from p3 have sr3: "same_records st2 st3" by simp
    have frame3: "entries st3 ! p = entries st2 ! p" if "p < i \<or> j \<le> p" for p
      using p3 that by blast
    have len3: "length (entries st3) = length (entries st)" "base_depth st3 = base_depth st"
      using sr3 len2 by (simp_all add: same_records_def)
    have start3: "entries st3 ! start = (entries st ! start)\<lparr>children := cs[n := Some i]\<rparr>"
      using frame3 [of start] pre c1 by (simp add: st2_nth)
    have later3: "entries st3 ! p = entries st ! p" if "j \<le> p" "p < end'" for p
      using frame3 [of p] that j pre by (simp add: st2_nth)
    have pre3: "attach_pre st3 start end' d j (n + 1)"
      unfolding attach_pre_def
      using pre j c2 by (auto simp: len3 start3 later3 n_components_def)
    have post: "attach_post st3 st' start end' j (n + 1) n'"
      by (rule attach.IH(2) [OF True c1(1) c1(2) c2(1) c2(2) [unfolded cs_def]
            walk [unfolded st2_def] sub [unfolded st2_def] rest pre3])
    note p = post [unfolded attach_post_def]
    from p have sr: "same_records st3 st'" by simp
    have sr_all: "same_records st st'"
      using sr2 sr3 sr by (blast intro: same_records_trans)
    have frame: "entries st' ! p = entries st3 ! p" if "p \<noteq> start" "p < j \<or> end' \<le> p" for p
      using p that by simp
    from p obtain W where W: "n' = n + 1 + length W" "n' \<le> length (children (entries st3 ! start))"
      "entries st' ! start =
          (entries st3 ! start)\<lparr>children :=
             take (n + 1) (children (entries st3 ! start)) @ map Some W @
             drop n' (children (entries st3 ! start))\<rparr>"
      "\<forall>w\<in>set W. link_ok st3 start w"
      "\<forall>k. count_list W k + occurrences st' j end' k = (if j \<le> k \<and> k < end' then 1 else 0)"
      by auto
    have lk: "link_ok st3 = link_ok st"
      using sr2 sr3 by (intro ext) (simp add: link_ok_same_records)
    have lk2: "link_ok st2 = link_ok st"
      using sr2 by (intro ext) (simp add: link_ok_same_records)
    have take_eq: "take (Suc n) (cs[n := Some i]) = take n cs @ [Some i]"
      using c2 by (simp add: take_Suc_conv_app_nth)
    have drop_eq: "drop n' (cs[n := Some i]) = drop n' cs"
      using W(1) by simp
    have start': "entries st' ! start =
        (entries st ! start)\<lparr>children := take n cs @ map Some (i # W) @ drop n' cs\<rparr>"
      using W(3) by (simp add: start3 take_eq drop_eq)
    have link_i: "link_ok st start i"
      unfolding link_ok_def using pre c1 c2 True by auto
    have occ_mid: "occurrences st' i j k = (if i < k \<and> k < j then 1 else 0)" for k
    proof -
      have "occurrences st' i j k = occurrences st3 i j k"
        using pre by (intro occurrences_cong frame) auto
      with p3 show ?thesis by simp
    qed
    have count: "count_list (i # W) k + occurrences st' i end' k =
        (if i \<le> k \<and> k < end' then 1 else 0)" for k
    proof -
      have "occurrences st' i end' k = occurrences st' i j k + occurrences st' j end' k"
        using j by (intro occurrences_split) auto
      with occ_mid [of k] W(5) j show ?thesis
        by (auto split: if_splits)
    qed
    have links: "link_ok st p c"
      if "i \<le> p" "p < end'" "c \<in> set (child_list (entries st' ! p))" for p c
    proof (cases "p < j")
      case True
      with that pre have "entries st' ! p = entries st3 ! p"
        by (intro frame) auto
      with that True p3 have "link_ok st2 p c" by simp
      then show ?thesis by (simp add: lk2)
    next
      case False
      with that p have "link_ok st3 p c" by simp
      then show ?thesis by (simp add: lk)
    qed
    have frame_all: "entries st' ! p = entries st ! p" if "p \<noteq> start" "p < i \<or> end' \<le> p" for p
    proof -
      from that j have "entries st' ! p = entries st3 ! p" by (intro frame) auto
      also from that j have "\<dots> = entries st2 ! p" by (intro frame3) auto
      also from that True have "\<dots> = entries st ! p" by (auto simp: st2_nth)
      finally show ?thesis .
    qed
    have "n' = n + length (i # W) \<and> n' \<le> length (children (entries st ! start)) \<and>
        entries st' ! start =
          (entries st ! start)\<lparr>children :=
             take n (children (entries st ! start)) @ map Some (i # W) @
             drop n' (children (entries st ! start))\<rparr> \<and>
        (\<forall>w\<in>set (i # W). link_ok st start w) \<and>
        (\<forall>k. count_list (i # W) k + occurrences st' i end' k =
           (if i \<le> k \<and> k < end' then 1 else 0))"
      using W(1,2,4) start' link_i count by (simp add: start3 lk cs_def)
    then have "\<exists>W. n' = n + length W \<and> n' \<le> length (children (entries st ! start)) \<and>
        entries st' ! start =
          (entries st ! start)\<lparr>children :=
             take n (children (entries st ! start)) @ map Some W @
             drop n' (children (entries st ! start))\<rparr> \<and>
        (\<forall>w\<in>set W. link_ok st start w) \<and>
        (\<forall>k. count_list W k + occurrences st' i end' k =
           (if i \<le> k \<and> k < end' then 1 else 0))"
      by (rule exI [where x = "i # W"])
    note ex = this
    show ?thesis
      by (rule attach_postI [OF sr_all frame_all ex links])
  qed
next
  case (build st start end' d)
  note pre = build.prems(2) [unfolded build_pre_def]
  define st0 where "st0 = update_entry st start (\<lambda>e. e\<lparr>depth := Some d\<rparr>)"
  from pre have s: "start < length (entries st)" by simp
  from build.prems(1) s obtain st1 st2 n sorted_cs where
    nc: "n_components (entries st ! start) = d + base_depth st"
    and cp: "count_pass st0 start end' (d + base_depth st) (start + 1) = Inr st1"
    and ap: "attach_pass
               (update_entry st1 start (\<lambda>e. e\<lparr>children := replicate (n_children e) None\<rparr>))
               start end' d (start + 1) 0 = Inr (st2, n)"
    and asrt: "n = n_children (entries st2 ! start)"
    and qs: "qsort (compare_subtrees st2) (map the (take n (children (entries st2 ! start))))
               = Inr sorted_cs"
    and st': "st' = update_entry st2 start
                (\<lambda>e. e\<lparr>children := map Some sorted_cs @ drop n (children e)\<rparr>)"
    by (subst (asm) build_tree_preorder_unfold)
       (auto simp: st0_def split: if_splits sum.splits prod.splits)
  from count_pass_result [OF cp] obtain c
    where st1: "st1 = update_entry st0 start (\<lambda>e. e\<lparr>n_children := c\<rparr>)" ..
  define sta where
    "sta = update_entry st1 start (\<lambda>e. e\<lparr>children := replicate (n_children e) None\<rparr>)"
  have sta_nth: "entries sta ! p =
      (if p = start
       then (entries st ! start)\<lparr>depth := Some d, n_children := c, children := replicate c None\<rparr>
       else entries st ! p)" for p
    using s by (simp add: sta_def st1 st0_def update_entry_nth)
  have sra: "same_records st sta"
    using s by (simp add: same_records_def sta_nth) (simp add: sta_def st1 st0_def)
  have lena: "length (entries sta) = length (entries st)" "base_depth sta = base_depth st"
    using sra by (simp_all add: same_records_def)
  have prea: "attach_pre sta start end' d (start + 1) 0"
    unfolding attach_pre_def using pre nc
    by (auto simp: lena sta_nth n_components_def)
  have posta: "attach_post sta st2 start end' (start + 1) 0 n"
    using build.IH [of st1 st2 n] s nc cp ap prea
    by (simp add: st0_def sta_def)
  note p = posta [unfolded attach_post_def]
  from p have sr2: "same_records sta st2" by simp
  have frame2: "entries st2 ! p = entries sta ! p" if "p \<noteq> start" "p < start + 1 \<or> end' \<le> p" for p
    using p that by simp
  from p obtain W where W: "n = length W" "n \<le> c"
    "entries st2 ! start = (entries sta ! start)\<lparr>children := map Some W @ drop n (replicate c None)\<rparr>"
    "\<forall>w\<in>set W. link_ok sta start w"
    "\<forall>k. count_list W k + occurrences st2 (start + 1) end' k =
        (if start + 1 \<le> k \<and> k < end' then 1 else 0)"
    by (auto simp: sta_nth)
  from asrt W(3) have "n = c" by (simp add: sta_nth)
  with W have ch2: "children (entries st2 ! start) = map Some W" by simp
  with qs W(1) have "qsort (compare_subtrees st2) W = Inr sorted_cs"
    by (simp add: comp_def)
  then have perm: "mset sorted_cs = mset W" by (rule qsort_mset)
  then have perm_len: "length sorted_cs = length W" by (rule mset_eq_length)
  from perm have perm_set: "set sorted_cs = set W" by (rule mset_eq_setD)
  from perm have perm_count: "count_list sorted_cs k = count_list W k" for k
    by (metis count_mset)
  have len2: "length (entries st2) = length (entries st)"
    using sr2 lena by (simp add: same_records_def)
  have st'_nth: "entries st' ! p =
      (if p = start then (entries st2 ! start)\<lparr>children := map Some sorted_cs\<rparr>
       else entries st2 ! p)" for p
    using s W(1) by (simp add: st' update_entry_nth len2 ch2)
  have cl: "child_list (entries st' ! start) = sorted_cs"
    using W(1,3) \<open>n = c\<close> perm_len by (simp add: st'_nth child_list_def sta_nth comp_def)
  have sr': "same_records st2 st'"
    unfolding st' by (rule same_records_update_entry) simp_all
  have sr_all: "same_records st st'"
    using sra sr2 sr' by (blast intro: same_records_trans)
  have lka: "link_ok sta = link_ok st"
    using sra by (intro ext) (simp add: link_ok_same_records)
  have frame_all: "entries st' ! p = entries st ! p" if "p < start \<or> end' \<le> p" for p
    using that pre frame2 [of p] by (auto simp: st'_nth sta_nth)
  have links: "link_ok st p c'"
    if "start \<le> p" "p < end'" "c' \<in> set (child_list (entries st' ! p))" for p c'
  proof (cases "p = start")
    case True
    with that cl perm_set W(4) show ?thesis by (simp add: lka)
  next
    case False
    with that p have "link_ok sta p c'" by (simp add: st'_nth)
    then show ?thesis by (simp add: lka)
  qed
  have occ: "occurrences st' start end' k = (if start < k \<and> k < end' then 1 else 0)" for k
  proof -
    have "occurrences st' (start + 1) end' k = occurrences st2 (start + 1) end' k"
      by (intro occurrences_cong) (simp add: st'_nth)
    with pre W(5) perm_count [of k] cl show ?thesis
      by (auto simp: occurrences_first [of start end'] split: if_splits)
  qed
  show ?case
    by (rule build_postI [OF sr_all frame_all links occ])
qed

subsection \<open>The parser\<close>

lemma split_path_result:
  "split_path s cur comps = Inr cs \<Longrightarrow> length comps < length cs"
  by (induction s cur comps rule: split_path.induct) (auto split: if_splits)

lemma split_path_failure:
  "split_path s cur comps = Inl f \<Longrightarrow> f = Assertion_failed"
  by (induction s cur comps rule: split_path.induct) (auto split: if_splits)

lemma split_path_plain:
  "\<forall>c\<in>set s. c \<noteq> NL \<and> c \<noteq> NUL \<and> c \<noteq> CHR ''/'' \<Longrightarrow>
     split_path s cur comps = Inr (comps @ [cur @ s])"
  by (induction s arbitrary: cur) auto

lemma parse_line_cases:
  obtains (format) "parse_line line_number path = Inl (Line_error Format_error line_number)"
  | (scan) f where "parse_line line_number path = Inl f" "f = Undefined_behaviour"
  | (size) "parse_line line_number path = Inl (Line_error Size_parse_failure line_number)"
  | (split) f where "parse_line line_number path = Inl f" "f = Assertion_failed"
  | (parsed) sz comps where
      "split_path (tl (dropWhile isdigit path)) [] [] = Inr comps"
      "parse_line line_number path =
         Inr \<lparr>size_e = sz, components = comps, depth = None, n_children = 0, children = []\<rparr>"
proof -
  let ?digits = "takeWhile isdigit path" and ?rest = "dropWhile isdigit path"
  let ?bad = "?digits = [] \<or> ?rest = [] \<or> (hd ?rest \<noteq> CHR '' '' \<and> hd ?rest \<noteq> CHR 0x09)"
  show ?thesis
  proof (cases ?bad)
    case True
    then have "parse_line line_number path = Inl (Line_error Format_error line_number)"
      unfolding parse_line_def Let_def by (rule if_P)
    then show ?thesis by (rule format)
  next
    case False
    then have ok: "parse_line line_number path =
        (case sscanf_PRIu64 ?digits of
           Inl f \<Rightarrow> Inl f
         | Inr (n_scanned, sz) \<Rightarrow>
             if n_scanned \<noteq> 1 then Inl (Line_error Size_parse_failure line_number)
             else
               (case split_path (tl ?rest) [] [] of
                  Inl f \<Rightarrow> Inl f
                | Inr comps \<Rightarrow>
                    Inr \<lparr>size_e = sz, components = comps, depth = None,
                         n_children = 0, children = []\<rparr>))"
      unfolding parse_line_def Let_def by (rule if_not_P)
    show ?thesis
    proof (cases "sscanf_PRIu64 ?digits")
      case (Inl f)
      then have f: "f = Undefined_behaviour"
        by (auto simp: sscanf_PRIu64_def Let_def split: if_splits)
      from Inl have "parse_line line_number path = Inl f"
        by (simp only: ok sum.case)
      then show ?thesis using f by (rule scan)
    next
      case (Inr r)
      obtain n_scanned sz where r: "r = (n_scanned, sz)" by (cases r)
      show ?thesis
      proof (cases "n_scanned = 1")
        case False
        with Inr r have "parse_line line_number path = Inl (Line_error Size_parse_failure line_number)"
          by (simp only: ok sum.case prod.case) simp
        then show ?thesis by (rule size)
      next
        case True
        show ?thesis
        proof (cases "split_path (tl ?rest) [] []")
          case (Inl f)
          then have f: "f = Assertion_failed" by (rule split_path_failure)
          from Inr r True Inl have "parse_line line_number path = Inl f"
            by (simp only: ok sum.case prod.case) simp
          then show ?thesis using f by (rule split)
        next
          case comps: (Inr comps)
          with Inr r True have "parse_line line_number path =
              Inr \<lparr>size_e = sz, components = comps, depth = None, n_children = 0, children = []\<rparr>"
            by (simp only: ok sum.case prod.case) simp
          with comps show ?thesis by (rule parsed)
        qed
      qed
    qed
  qed
qed

lemma parse_line_result:
  assumes "parse_line line_number path = Inr e"
  shows "1 \<le> n_components e \<and> depth e = None \<and> n_children e = 0 \<and> children e = []"
proof (rule parse_line_cases [of line_number path], goal_cases)
  case (5 sz comps)
  from 5(1) have "0 < length comps" by (auto dest: split_path_result)
  with 5(2) assms show ?case by (cases comps) (auto simp: n_components_def)
qed (use assms in simp_all)

lemma parse_line_failure:
  assumes "parse_line line_number path = Inl f"
  shows "f = Line_error Format_error line_number \<or> f = Line_error Size_parse_failure line_number \<or>
     f = Assertion_failed \<or> f = Undefined_behaviour"
  by (rule parse_line_cases [of line_number path]) (use assms in simp_all)

lemma read_entries_loop_step:
  "read_entries_loop ((nchars, path) # rest) line_number es overruns =
     (if nchars = 0 then
        Inr (es, if nchars = - 1 then overruns @ [line_number + 1] else overruns)
      else
        (case parse_line (line_number + 1) path of
           Inl f \<Rightarrow> Inl f
         | Inr e \<Rightarrow>
             read_entries_loop rest (line_number + 1) (es @ [e])
               (if nchars = - 1 then overruns @ [line_number + 1] else overruns)))"
  by (simp add: Let_def)

lemma parse_line_format_error:
  assumes "path = digits @ rest" "\<forall>c\<in>set digits. isdigit c" "rest = [] \<or> \<not> isdigit (hd rest)"
    and "digits = [] \<or> rest = [] \<or> (hd rest \<noteq> CHR '' '' \<and> hd rest \<noteq> CHR 0x09)"
  shows "parse_line line_number path = Inl (Line_error Format_error line_number)"
proof -
  from assms(3) have "takeWhile isdigit rest = []"
    by (cases rest) auto
  with assms(1,2) have tw: "takeWhile isdigit path = digits"
    by (simp add: takeWhile_append2)
  from assms(3) have "dropWhile isdigit rest = rest"
    by (cases rest) auto
  with assms(1,2) have dw: "dropWhile isdigit path = rest"
    by (simp add: dropWhile_append2)
  from assms(4) show ?thesis
    by (auto simp: parse_line_def tw dw)
qed

lemma read_entries_loop_append:
  "\<forall>(nchars, path)\<in>set before. nchars \<noteq> 0 \<Longrightarrow>
   read_entries_loop before line_number es overruns = Inr (es', overruns') \<Longrightarrow>
   read_entries_loop (before @ rest) line_number es overruns =
     read_entries_loop rest (line_number + length before) es' overruns'"
proof (induction before arbitrary: line_number es overruns)
  case Nil
  then show ?case by simp
next
  case (Cons g before)
  obtain nchars path where g: "g = (nchars, path)" by (cases g)
  with Cons.prems obtain e where e: "parse_line (line_number + 1) path = Inr e" "nchars \<noteq> 0"
    by (auto simp: Let_def split: sum.splits)
  define ov where "ov = (if nchars = - 1 then overruns @ [line_number + 1] else overruns)"
  from Cons.prems g e have "read_entries_loop before (line_number + 1) (es @ [e]) ov = Inr (es', overruns')"
    by (simp add: ov_def Let_def)
  with Cons.prems(1) have "read_entries_loop (before @ rest) (line_number + 1) (es @ [e]) ov =
      read_entries_loop rest (line_number + 1 + length before) es' overruns'"
    by (intro Cons.IH) auto
  with g e show ?case
    by (simp add: ov_def Let_def)
qed

lemma read_entries_loop_records:
  "read_entries_loop gets line_number es overruns = Inr (es', overruns') \<Longrightarrow>
   \<forall>e\<in>set es. 1 \<le> n_components e \<and> n_children e = 0 \<Longrightarrow>
   \<forall>e\<in>set es'. 1 \<le> n_components e \<and> n_children e = 0"
proof (induction gets arbitrary: line_number es overruns)
  case Nil
  then show ?case by simp
next
  case (Cons g rest)
  obtain nchars path where g: "g = (nchars, path)" by (cases g)
  show ?case
  proof (cases "nchars = 0")
    case True
    with Cons.prems g show ?thesis by (simp only: read_entries_loop_step) simp
  next
    case False
    show ?thesis
    proof (cases "parse_line (line_number + 1) path")
      case (Inl f)
      with Cons.prems(1) g False show ?thesis by (simp only: read_entries_loop_step) simp
    next
      case (Inr e)
      with Cons.prems(1) g False
      have rec: "read_entries_loop rest (line_number + 1) (es @ [e])
          (if nchars = - 1 then overruns @ [line_number + 1] else overruns) = Inr (es', overruns')"
        by (simp only: read_entries_loop_step) simp
      from Inr Cons.prems(2) have "\<forall>e\<in>set (es @ [e]). 1 \<le> n_components e \<and> n_children e = 0"
        by (auto dest: parse_line_result)
      with rec show ?thesis by (rule Cons.IH)
    qed
  qed
qed

lemma read_entries_loop_failure:
  "read_entries_loop gets line_number es overruns = Inl f \<Longrightarrow>
     (\<exists>k. f = Line_error Format_error k) \<or> (\<exists>k. f = Line_error Size_parse_failure k) \<or>
     f = Assertion_failed \<or> f = Undefined_behaviour"
proof (induction gets arbitrary: line_number es overruns)
  case Nil
  then show ?case by simp
next
  case (Cons g rest)
  obtain nchars path where g: "g = (nchars, path)" by (cases g)
  show ?case
  proof (cases "parse_line (line_number + 1) path")
    case (Inl h)
    with Cons.prems g have "f = h"
      by (simp only: read_entries_loop_step) (simp split: if_splits)
    with Inl show ?thesis by (auto dest: parse_line_failure)
  next
    case (Inr e)
    with Cons.prems g
    have "read_entries_loop rest (line_number + 1) (es @ [e])
          (if nchars = - 1 then overruns @ [line_number + 1] else overruns) = Inl f"
      by (simp only: read_entries_loop_step) (simp split: if_splits)
    then show ?thesis by (rule Cons.IH)
  qed
qed

subsection \<open>The reader of the older revision\<close>

lemma fgets_read_empty [simp]: "fgets_read room [] = ([], [])"
  by (cases room) simp_all

lemma fgets_read_length:
  "fgets_read room f = (cs, f') \<Longrightarrow> length cs \<le> room"
  by (induction room f arbitrary: cs f' rule: fgets_read.induct)
     (auto split: if_splits prod.splits)

lemma fgets_read_full:
  "NL \<notin> set xs \<Longrightarrow> fgets_read (length xs) (xs @ ys) = (xs, ys)"
  by (induction xs) auto

lemma fgets_read_line:
  "NL \<notin> set xs \<Longrightarrow> length xs < room \<Longrightarrow> fgets_read room (xs @ NL # ys) = (xs @ [NL], ys)"
proof (induction xs arbitrary: room)
  case Nil
  then show ?case by (cases room) auto
next
  case (Cons x xs)
  then show ?case by (cases room) auto
qed

lemma fgets_sentinel:
  assumes "fgets path n f = Some (path', f')" "length path = n" "0 < n"
    and "path ! (n - 1) = Some NUL"
  shows "path' ! (n - 1) = Some NUL"
proof -
  from assms(1) obtain cs where cs: "fgets_read (n - 1) f = (cs, f')"
    and path': "path' = map Some cs @ [Some NUL] @ drop (length cs + 1) path"
    by (auto simp: fgets_def split: prod.splits if_splits)
  from cs have le: "length cs \<le> n - 1" by (rule fgets_read_length)
  show ?thesis
  proof (cases "length cs = n - 1")
    case True
    then show ?thesis by (simp add: path' nth_append)
  next
    case False
    with le have "length cs < n - 1" by simp
    then have "Suc (n - 2) = n - 1" by simp
    with assms(2,4) \<open>length cs < n - 1\<close> show ?thesis
      by (simp add: path' nth_append)
  qed
qed

lemma c_string_failure: "c_string cells = Inl f \<Longrightarrow> f = Undefined_behaviour"
  by (induction cells rule: c_string.induct) (auto split: if_splits sum.splits)

lemma c_string_terminated:
  "NUL \<notin> set xs \<Longrightarrow> c_string (map Some xs @ Some NUL # cells) = Inr xs"
  by (induction xs) auto

lemma fresh_path_sentinel:
  "length fresh_path = du_buffer_length" "0 < du_buffer_length"
  "fresh_path ! (du_buffer_length - 1) = Some NUL"
  by (simp_all add: fresh_path_def du_buffer_length_def)

lemma read_entries_fgets_loop_step:
  assumes "fgets fresh_path du_buffer_length f = Some (path', f')"
  shows "read_entries_fgets_loop f line_number es =
     (case c_string path' of
        Inl e \<Rightarrow> Inl e
      | Inr s \<Rightarrow>
          (case parse_line (line_number + 1) s of
             Inl e \<Rightarrow> Inl e
           | Inr e \<Rightarrow> read_entries_fgets_loop f' (line_number + 1) (es @ [e])))"
proof -
  from assms have "path' ! (du_buffer_length - 1) = Some NUL"
    by (rule fgets_sentinel) (rule fresh_path_sentinel)+
  with assms show ?thesis
    by (subst read_entries_fgets_loop.simps) simp
qed

lemma read_entries_fgets_loop_end:
  "fgets fresh_path du_buffer_length f = None \<Longrightarrow> read_entries_fgets_loop f line_number es = Inr es"
  by (subst read_entries_fgets_loop.simps) simp

lemma read_entries_fgets_loop_failure:
  "read_entries_fgets_loop f line_number es = Inl g \<Longrightarrow>
     (\<exists>k. g = Line_error Format_error k) \<or> (\<exists>k. g = Line_error Size_parse_failure k) \<or>
     g = Assertion_failed \<or> g = Undefined_behaviour"
proof (induction f line_number es rule: read_entries_fgets_loop.induct)
  case (1 f line_number es)
  show ?case
  proof (cases "fgets fresh_path du_buffer_length f")
    case None
    with "1.prems" show ?thesis
      by (simp add: read_entries_fgets_loop_end)
  next
    case (Some r)
    obtain path' f' where r: "r = (path', f')" by (cases r)
    with Some have fg: "fgets fresh_path du_buffer_length f = Some (path', f')" by simp
    then have sentinel: "\<not> path' ! (du_buffer_length - 1) \<noteq> Some NUL"
      using fgets_sentinel [OF fg fresh_path_sentinel] by simp
    note step = read_entries_fgets_loop_step [OF fg, of line_number es]
    show ?thesis
    proof (cases "c_string path'")
      case (Inl h)
      with "1.prems" have "g = h" by (simp add: step)
      with Inl show ?thesis by (auto dest: c_string_failure)
    next
      case s: (Inr s)
      show ?thesis
      proof (cases "parse_line (line_number + 1) s")
        case (Inl h)
        with "1.prems" s have "g = h" by (simp add: step)
        with Inl show ?thesis by (auto dest: parse_line_failure)
      next
        case (Inr e)
        with "1.prems" s
        have "read_entries_fgets_loop f' (line_number + 1) (es @ [e]) = Inl g"
          by (simp add: step)
        then show ?thesis
          by (rule "1.IH" [OF Some r [symmetric] sentinel s Inr])
      qed
    qed
  qed
qed

subsection \<open>The post-order builder\<close>

lemma postorder_loop_unfold:
  "postorder_loop st end' i =
     (if \<not> i < end' then Inr st
      else if \<not> i < length (entries st) then Inl Undefined_behaviour
      else
        (case postorder_walk st i end' (u32_sub (n_components (entries st ! i)) 2) (i + 1) of
           Inl f \<Rightarrow> Inl f
         | Inr (st1, j) \<Rightarrow>
             (case (if j > i + 1
                    then build_tree_postorder st1 (i + 1) j
                           (u32_sub (n_components (entries st1 ! i)) 1)
                    else Inr st1) of
                Inl f \<Rightarrow> Inl f
              | Inr st2 \<Rightarrow>
                  if j < length (entries st2) then
                    (case fill_children
                            (update_entry st2 j
                               (\<lambda>e. e\<lparr>children := replicate (n_children e) None\<rparr>))
                            j (u32_sub (n_components (entries st ! i)) 2) i 0 of
                       Inl f \<Rightarrow> Inl f
                     | Inr st3 \<Rightarrow> postorder_loop st3 end' j)
                  else Inl Undefined_behaviour)))"
  by (subst postorder_loop.simps) (simp add: Let_def)

lemma postorder_induct [case_names build loop]:
  assumes build: "\<And>st start end' d.
      (start < length (entries st) \<Longrightarrow>
         Q (update_entry st start (\<lambda>e. e\<lparr>depth := Some d, n_children := 0\<rparr>)) end' start)
      \<Longrightarrow> P st start end' d"
    and loop: "\<And>st end' i.
      (\<And>st1 j. \<lbrakk>i < end'; i < length (entries st);
          postorder_walk st i end' (u32_sub (n_components (entries st ! i)) 2) (i + 1) = Inr (st1, j);
          i + 1 < j\<rbrakk>
        \<Longrightarrow> P st1 (i + 1) j (u32_sub (n_components (entries st1 ! i)) 1)) \<Longrightarrow>
      (\<And>st1 j st2 st3. \<lbrakk>i < end'; i < length (entries st);
          postorder_walk st i end' (u32_sub (n_components (entries st ! i)) 2) (i + 1) = Inr (st1, j);
          (if i + 1 < j
           then build_tree_postorder st1 (i + 1) j (u32_sub (n_components (entries st1 ! i)) 1)
           else Inr st1) = Inr st2;
          j < length (entries st2);
          fill_children
            (update_entry st2 j (\<lambda>e. e\<lparr>children := replicate (n_children e) None\<rparr>))
            j (u32_sub (n_components (entries st ! i)) 2) i 0 = Inr st3\<rbrakk>
        \<Longrightarrow> Q st3 end' j)
      \<Longrightarrow> Q st end' i"
  shows "P st start end' d" and "Q st end' i"
proof (induction st start end' d and st end' i rule: build_tree_postorder_postorder_loop.induct)
  case (1 st start end' d)
  show ?case
    by (rule build) (rule "1.IH")
next
  case (2 st end' i)
  show ?case
  proof (rule loop, goal_cases)
    case (1 st1 j)
    then show ?case by (intro "2.IH" (1) [of _ "(st1, j)"]) simp_all
  next
    case (2 st1 j st2 st3)
    then show ?case by (intro "2.IH" (2) [of _ "(st1, j)" st1 j st2 st3]) simp_all
  qed
qed

lemma postorder_walk_result:
  "postorder_walk st i end' off j0 = Inr (st', j) \<Longrightarrow>
     length (entries st') = length (entries st) \<and> j0 \<le> j \<and> j \<le> max j0 end'"
proof (induction st i end' off j0 rule: postorder_walk.induct)
  case (1 st i end' off j0)
  show ?case
  proof (cases "j0 < end' \<and> j0 < length (entries st) \<and> n_components (entries st ! j0) < off \<and>
      i < length (entries st) \<and> off < n_components (entries st ! i) \<and>
      off < n_components (entries st ! j0) \<and>
      strcmp (components (entries st ! i) ! off) (components (entries st ! j0) ! off) = 0")
    case True
    with "1.prems" have "postorder_walk
        (update_entry st j0 (\<lambda>e. e\<lparr>n_children := n_children e + 1\<rparr>)) i end' off (j0 + 1) = Inr (st', j)"
      by (subst (asm) postorder_walk.simps) simp
    with True have "length (entries st') =
        length (entries (update_entry st j0 (\<lambda>e. e\<lparr>n_children := n_children e + 1\<rparr>))) \<and>
        j0 + 1 \<le> j \<and> j \<le> max (j0 + 1) end'"
      by (intro "1.IH") auto
    with True show ?thesis by auto
  next
    case False
    with "1.prems" have "j = j0 \<and> st' = st"
      by (subst (asm) postorder_walk.simps) (auto split: if_splits)
    then show ?thesis by simp
  qed
qed

lemma postorder_walk_stops:
  "postorder_walk st i end' off j0 = Inr (st', j) \<Longrightarrow> st' = st \<and> j = j0"
proof -
  assume r: "postorder_walk st i end' off j0 = Inr (st', j)"
  have "\<not> (n_components (entries st ! j0) < off \<and> off < n_components (entries st ! j0))"
    by simp
  with r show ?thesis
    by (subst (asm) postorder_walk.simps) (auto split: if_splits)
qed

lemma fill_children_length:
  "fill_children st j off k n = Inr st' \<Longrightarrow> length (entries st') = length (entries st)"
proof (induction st j off k n rule: fill_children.induct)
  case (1 st j off k n)
  show ?case
  proof (cases "k < j")
    case False
    with "1.prems" show ?thesis
      by (subst (asm) fill_children.simps) simp
  next
    case True
    show ?thesis
    proof (cases "n_components (entries st ! k) = u32_add off 2")
      case match: True
      with True "1.prems" have b: "k < length (entries st)"
        "j < length (entries st) \<and> n < length (children (entries st ! j))"
        and rec: "fill_children
          (update_entry st j (\<lambda>e. e\<lparr>children := (children e)[n := Some k]\<rparr>)) j off (k + 1) (n + 1)
          = Inr st'"
        by (subst (asm) fill_children.simps, simp split: if_splits)+
      from "1.IH"(1) [OF True b(1) match b(2) rec] show ?thesis by simp
    next
      case nomatch: False
      with True "1.prems" have b: "k < length (entries st)"
        and rec: "fill_children st j off (k + 1) n = Inr st'"
        by (subst (asm) fill_children.simps, simp split: if_splits)+
      from "1.IH"(2) [OF True b nomatch rec] show ?thesis .
    qed
  qed
qed

lemma postorder_length:
  "build_tree_postorder st start end' d = Inr st' \<Longrightarrow> length (entries st') = length (entries st)"
  "postorder_loop st end' i = Inr st' \<Longrightarrow> length (entries st') = length (entries st)"
proof (induction st start end' d and st end' i arbitrary: st' and st' rule: postorder_induct)
  case (build st start end' d)
  from build.prems have s: "start < length (entries st)"
    and l: "postorder_loop (update_entry st start (\<lambda>e. e\<lparr>depth := Some d, n_children := 0\<rparr>))
        end' start = Inr st'"
    by (subst (asm) build_tree_postorder.simps, simp split: if_splits)+
  from build.IH [OF s l] show ?case by simp
next
  case (loop st end' i)
  show ?case
  proof (cases "i < end'")
    case False
    with loop.prems show ?thesis
      by (subst (asm) postorder_loop_unfold) simp
  next
    case True
    from loop.prems True obtain st1 j st2 st3 where
      i: "i < length (entries st)"
      and walk: "postorder_walk st i end' (u32_sub (n_components (entries st ! i)) 2) (i + 1)
          = Inr (st1, j)"
      and sub: "(if i + 1 < j
           then build_tree_postorder st1 (i + 1) j (u32_sub (n_components (entries st1 ! i)) 1)
           else Inr st1) = Inr st2"
      and j: "j < length (entries st2)"
      and fill: "fill_children
            (update_entry st2 j (\<lambda>e. e\<lparr>children := replicate (n_children e) None\<rparr>))
            j (u32_sub (n_components (entries st ! i)) 2) i 0 = Inr st3"
      and rest: "postorder_loop st3 end' j = Inr st'"
      by (subst (asm) postorder_loop_unfold)
         (auto split: if_splits sum.splits prod.splits)
    from postorder_walk_stops [OF walk] have "st1 = st" "j = i + 1" by simp_all
    with sub have "st2 = st" by simp
    from fill_children_length [OF fill] \<open>st2 = st\<close> have "length (entries st3) = length (entries st)"
      by simp
    with loop.IH(2) [OF True i walk sub j fill rest] show ?thesis by simp
  qed
qed

lemma postorder_incomplete:
  "length (entries st) \<le> end' \<Longrightarrow> start < end' \<Longrightarrow>
     build_tree_postorder st start end' d = Inl Undefined_behaviour"
  "length (entries st) \<le> end' \<Longrightarrow> i < end' \<Longrightarrow>
     postorder_loop st end' i = Inl Undefined_behaviour"
proof (induction st start end' d and st end' i rule: postorder_induct)
  case (build st start end' d)
  show ?case
  proof (cases "start < length (entries st)")
    case False
    then show ?thesis by (subst build_tree_postorder.simps) simp
  next
    case True
    with build.prems build.IH [OF True] show ?thesis
      by (subst build_tree_postorder.simps) simp
  qed
next
  case (loop st end' i)
  let ?off = "u32_sub (n_components (entries st ! i)) 2"
  show ?case
  proof (cases "i < length (entries st)")
    case False
    with loop.prems show ?thesis by (subst postorder_loop_unfold) simp
  next
    case i: True
    show ?thesis
    proof (cases "postorder_walk st i end' ?off (i + 1)")
      case (Inl f)
      then have "f = Undefined_behaviour" by (rule postorder_walk_failure)
      with Inl i loop.prems show ?thesis by (subst postorder_loop_unfold) simp
    next
      case (Inr r)
      obtain st1 j where r: "r = (st1, j)" by (cases r)
      with Inr have walk: "postorder_walk st i end' ?off (i + 1) = Inr (st1, j)" by simp
      from postorder_walk_stops [OF walk] have st1: "st1 = st" "j = i + 1" by simp_all
      let ?alloc = "update_entry st j (\<lambda>e. e\<lparr>children := replicate (n_children e) None\<rparr>)"
      show ?thesis
      proof (cases "j < length (entries st)")
        case False
        with walk st1 i loop.prems show ?thesis by (subst postorder_loop_unfold) simp
      next
        case j: True
        show ?thesis
        proof (cases "fill_children ?alloc j ?off i 0")
          case (Inl f)
          then have "f = Undefined_behaviour" by (rule fill_children_failure)
          with Inl walk st1 i j loop.prems show ?thesis by (subst postorder_loop_unfold) simp
        next
          case st3: (Inr st3)
          from fill_children_length [OF st3] have len: "length (entries st3) = length (entries st)"
            by simp
          from st1 have sub: "(if i + 1 < j
              then build_tree_postorder st1 (i + 1) j (u32_sub (n_components (entries st1 ! i)) 1)
              else Inr st1) = Inr st" by simp
          from j loop.prems have "j < end'" by simp
          with loop.IH(2) [OF loop.prems(2) i walk sub j] st3 st1 len loop.prems
          have "postorder_loop st3 end' j = Inl Undefined_behaviour" by simp
          with st3 walk st1 i j loop.prems show ?thesis by (subst postorder_loop_unfold) simp
        qed
      qed
    qed
  qed
qed

lemma postorder_failure:
  "build_tree_postorder st start end' d = Inl f \<Longrightarrow> f = Undefined_behaviour"
  "postorder_loop st end' i = Inl f \<Longrightarrow> f = Undefined_behaviour"
proof (induction st start end' d and st end' i rule: postorder_induct)
  case (build st start end' d)
  show ?case
  proof (cases "start < length (entries st)")
    case False
    with build.prems show ?thesis by (subst (asm) build_tree_postorder.simps) simp
  next
    case True
    with build.prems have "postorder_loop
        (update_entry st start (\<lambda>e. e\<lparr>depth := Some d, n_children := 0\<rparr>)) end' start = Inl f"
      by (subst (asm) build_tree_postorder.simps) simp
    then show ?thesis by (rule build.IH [OF True])
  qed
next
  case (loop st end' i)
  let ?off = "u32_sub (n_components (entries st ! i)) 2"
  show ?case
  proof (cases "i < end' \<and> i < length (entries st)")
    case False
    with loop.prems show ?thesis
      by (subst (asm) postorder_loop_unfold) (auto split: if_splits)
  next
    case True
    show ?thesis
    proof (cases "postorder_walk st i end' ?off (i + 1)")
      case (Inl g)
      with True loop.prems have "f = g" by (subst (asm) postorder_loop_unfold) simp
      with Inl show ?thesis by (auto dest: postorder_walk_failure)
    next
      case (Inr r)
      obtain st1 j where r: "r = (st1, j)" by (cases r)
      with Inr have walk: "postorder_walk st i end' ?off (i + 1) = Inr (st1, j)" by simp
      from postorder_walk_stops [OF walk] have st1: "st1 = st" "j = i + 1" by simp_all
      then have sub: "(if i + 1 < j
          then build_tree_postorder st1 (i + 1) j (u32_sub (n_components (entries st1 ! i)) 1)
          else Inr st1) = Inr st" by simp
      let ?alloc = "update_entry st j (\<lambda>e. e\<lparr>children := replicate (n_children e) None\<rparr>)"
      show ?thesis
      proof (cases "j < length (entries st)")
        case False
        with walk st1 True loop.prems show ?thesis by (subst (asm) postorder_loop_unfold) simp
      next
        case j: True
        show ?thesis
        proof (cases "fill_children ?alloc j ?off i 0")
          case (Inl g)
          with walk st1 True j loop.prems have "f = g" by (subst (asm) postorder_loop_unfold) simp
          with Inl show ?thesis by (auto dest: fill_children_failure)
        next
          case st3: (Inr st3)
          with walk st1 True j loop.prems have "postorder_loop st3 end' j = Inl f"
            by (subst (asm) postorder_loop_unfold) simp
          with True show ?thesis
            by (intro loop.IH(2) [OF _ _ walk sub j st3]) simp_all
        qed
      qed
    qed
  qed
qed

subsection \<open>main\<close>

lemma read_entries_records:
  assumes "read_entries gets = Inr (es, overruns)"
  shows "\<forall>e\<in>set es. 1 \<le> n_components e \<and> n_children e = 0"
  using assms read_entries_loop_records [of gets 0 "[]" "[]" es overruns]
  by (simp add: read_entries_def)

lemma read_entries_failure:
  assumes "read_entries gets = Inl f"
  shows "(\<exists>k. f = Line_error Format_error k) \<or> (\<exists>k. f = Line_error Size_parse_failure k) \<or>
     f = Assertion_failed \<or> f = Undefined_behaviour"
  using assms read_entries_loop_failure [of gets 0 "[]" "[]" f]
  by (simp add: read_entries_def)

text \<open>What \<^verbatim>\<open>main\<close> does after a successful parse of at least one record.\<close>

lemma main_preorder:
  assumes "read_entries gets = Inr (es, overruns)" "es \<noteq> []"
  shows "main True gets =
     (case qsort compare_entries es of
        Inl f \<Rightarrow> Inl f
      | Inr es' \<Rightarrow>
          if n_components (es' ! 0) = 0 then Inl Zero_length_entry
          else
            map_sum id Some
              (build_tree_preorder
                 \<lparr>entries = es', root_entry = 0, base_depth = n_components (es' ! 0)\<rparr>
                 0 (length es') 0))"
  using assms by (simp add: main_def)

lemma main_postorder:
  assumes "read_entries gets = Inr (es, overruns)" "es \<noteq> []"
  shows "main False gets =
     map_sum id Some
       (build_tree_postorder
          \<lparr>entries = es, root_entry = length es - 1,
           base_depth = n_components (es ! (length es - 1))\<rparr>
          0 (length es) 0)"
  using assms by (simp add: main_def)

lemma main_postorder_undefined:
  assumes "read_entries gets = Inr (es, overruns)" "es \<noteq> []"
  shows "main False gets = Inl Undefined_behaviour"
proof -
  have "build_tree_postorder
          \<lparr>entries = es, root_entry = length es - 1,
           base_depth = n_components (es ! (length es - 1))\<rparr>
          0 (length es) 0 = Inl Undefined_behaviour"
    using assms(2) by (intro postorder_incomplete) simp_all
  then show ?thesis by (simp add: main_postorder [OF assms])
qed

lemma main_failure:
  assumes "main pflag gets = Inl f"
  shows "f \<noteq> Zero_length_entry"
proof (cases "read_entries gets")
  case (Inl g)
  with assms have "f = g" by (simp add: main_def)
  with Inl show ?thesis by (auto dest: read_entries_failure)
next
  case (Inr r)
  obtain es overruns where r: "r = (es, overruns)" by (cases r)
  with Inr have re: "read_entries gets = Inr (es, overruns)" by simp
  show ?thesis
  proof (cases "es = []")
    case True
    with re assms show ?thesis by (simp add: main_def)
  next
    case ne: False
    show ?thesis
    proof (cases pflag)
      case False
      with assms main_postorder_undefined [OF re ne] show ?thesis by simp
    next
      case True
      note m = main_preorder [OF re ne]
      show ?thesis
      proof (cases "qsort compare_entries es")
        case (Inl g)
        with assms True m have "f = g" by simp
        with Inl show ?thesis by (auto dest!: qsort_failure compare_entries_failure)
      next
        case sorted: (Inr es')
        from qsort_mset [OF sorted] have "set es' = set es" by (rule mset_eq_setD)
        moreover from this ne have "es' \<noteq> []" by auto
        then have "es' ! 0 \<in> set es'" by simp
        ultimately have "1 \<le> n_components (es' ! 0)"
          using read_entries_records [OF re] by auto
        with assms True m sorted
        have "build_tree_preorder
             \<lparr>entries = es', root_entry = 0, base_depth = n_components (es' ! 0)\<rparr>
             0 (length es') 0 = Inl f"
          by (cases "build_tree_preorder
             \<lparr>entries = es', root_entry = 0, base_depth = n_components (es' ! 0)\<rparr>
             0 (length es') 0") simp_all
        then have "builder_failure f" by (rule preorder_failure)
        then show ?thesis by (auto simp: builder_failure_def)
      qed
    qed
  qed
qed

section \<open>Properties of the specification\<close>

lemma preorder_top_level:
  assumes "main True gets = Inr (Some st)"
  obtains es overruns es' where
    "read_entries gets = Inr (es, overruns)" "es \<noteq> []"
    "qsort compare_entries es = Inr es'"
    "build_tree_preorder \<lparr>entries = es', root_entry = 0, base_depth = n_components (es' ! 0)\<rparr>
       0 (length es') 0 = Inr st"
proof (cases "read_entries gets")
  case (Inl g)
  with assms show ?thesis by (simp add: main_def)
next
  case (Inr r)
  obtain es overruns where r: "r = (es, overruns)" by (cases r)
  with Inr have re: "read_entries gets = Inr (es, overruns)" by simp
  have ne: "es \<noteq> []"
    using assms re by (auto simp: main_def)
  note m = main_preorder [OF re ne]
  show ?thesis
  proof (cases "qsort compare_entries es")
    case (Inl g)
    with assms m show ?thesis by simp
  next
    case sorted: (Inr es')
    with assms m have "build_tree_preorder
        \<lparr>entries = es', root_entry = 0, base_depth = n_components (es' ! 0)\<rparr>
        0 (length es') 0 = Inr st"
      by (cases "build_tree_preorder
        \<lparr>entries = es', root_entry = 0, base_depth = n_components (es' ! 0)\<rparr>
        0 (length es') 0") (simp_all split: if_splits)
    with re ne sorted show ?thesis by (rule that)
  qed
qed

text \<open>
  C3, amended. When the pre-order variant completes and every record begins with the
  components of the root record, then for every node and every child in its list the
  components of the child without the last one are the components of the node; every
  record but the root is in the list of exactly one node, once, and the root is in no
  list; the records of the tree are the records read.
\<close>

theorem preorder_parent_prefix:
  assumes "main True gets = Inr (Some st)"
    and "\<forall>e\<in>set (entries st).
           take (base_depth st) (components e) = components (entries st ! root_entry st)"
  shows "(\<forall>p<length (entries st). \<forall>c\<in>set (child_list (entries st ! p)).
            c < length (entries st) \<and>
            butlast (components (entries st ! c)) = components (entries st ! p)) \<and>
         (\<forall>k<length (entries st). k \<noteq> root_entry st \<longrightarrow>
            (\<exists>!p. p < length (entries st) \<and> k \<in> set (child_list (entries st ! p))) \<and>
            (\<forall>p<length (entries st). count_list (child_list (entries st ! p)) k \<le> 1)) \<and>
         (\<forall>p<length (entries st). root_entry st \<notin> set (child_list (entries st ! p))) \<and>
         (\<exists>es overruns. read_entries gets = Inr (es, overruns) \<and>
            mset (map (\<lambda>e. (size_e e, components e)) (entries st)) =
            mset (map (\<lambda>e. (size_e e, components e)) es))"
proof -
  from assms(1) obtain es overruns es' where
    re: "read_entries gets = Inr (es, overruns)" and ne: "es \<noteq> []"
    and sorted: "qsort compare_entries es = Inr es'"
    and built: "build_tree_preorder
        \<lparr>entries = es', root_entry = 0, base_depth = n_components (es' ! 0)\<rparr>
        0 (length es') 0 = Inr st"
    by (rule preorder_top_level)
  define st0 where "st0 = \<lparr>entries = es', root_entry = 0, base_depth = n_components (es' ! 0)\<rparr>"
  define N where "N = length es'"
  from qsort_mset [OF sorted] have perm: "mset es' = mset es" .
  then have set_eq: "set es' = set es" by (rule mset_eq_setD)
  with ne have N: "0 < N" by (auto simp: N_def)
  have fresh: "n_children (es' ! p) = 0" if "p < N" for p
    using read_entries_records [OF re] set_eq that nth_mem [of p es'] by (auto simp: N_def)
  have "build_pre st0 0 N 0"
    using N fresh by (auto simp: build_pre_def st0_def N_def)
  with built have "build_post st0 st 0 N"
    unfolding st0_def N_def by (intro preorder_tree(1)) simp_all
  note post = this [unfolded build_post_def]
  from post have sr: "same_records st0 st" by simp
  then have len: "length (entries st) = N" and base: "base_depth st = base_depth st0"
    and root: "root_entry st = 0"
    and comps: "\<And>k. k < N \<Longrightarrow> components (entries st ! k) = components (es' ! k)"
    and sizes: "\<And>k. k < N \<Longrightarrow> size_e (entries st ! k) = size_e (es' ! k)"
    by (simp_all add: same_records_def st0_def N_def)
  have lk: "link_ok st0 = link_ok st"
    using sr by (intro ext) (simp add: link_ok_same_records)
  have links: "link_ok st p c" if "p < N" "c \<in> set (child_list (entries st ! p))" for p c
    using post that by (simp add: lk)
  have occ: "occurrences st 0 N k = (if 0 < k \<and> k < N then 1 else 0)" for k
    using post by simp
  have prefix: "c < length (entries st) \<and>
      butlast (components (entries st ! c)) = components (entries st ! p)"
    if "p < N" "c \<in> set (child_list (entries st ! p))" for p c
  proof -
    let ?cc = "components (entries st ! c)" and ?cp = "components (entries st ! p)"
    from links [OF that] have c: "c < length (entries st)"
      and n: "length ?cc = length ?cp + 1"
      and agree: "\<And>x. base_depth st \<le> x \<Longrightarrow> x < length ?cp \<Longrightarrow> ?cc ! x = ?cp ! x"
      by (simp_all add: link_ok_def n_components_def)
    from that(1) c len assms(2) have tk: "take (base_depth st) ?cc = take (base_depth st) ?cp"
      by (metis nth_mem)
    have "butlast ?cc ! x = ?cp ! x" if "x < length ?cp" for x
    proof (cases "x < base_depth st")
      case True
      from n that have "butlast ?cc ! x = ?cc ! x" by (simp add: nth_butlast)
      also from True have "\<dots> = take (base_depth st) ?cc ! x" by simp
      also from True have "\<dots> = ?cp ! x" by (simp add: tk)
      finally show ?thesis .
    next
      case False
      with n that agree [of x] show ?thesis by (simp add: nth_butlast)
    qed
    with n have "butlast ?cc = ?cp"
      by (intro nth_equalityI) simp_all
    with c show ?thesis by simp
  qed
  have once: "(\<exists>!p. p < N \<and> k \<in> set (child_list (entries st ! p))) \<and>
      (\<forall>p<N. count_list (child_list (entries st ! p)) k \<le> 1)"
    if "0 < k" "k < N" for k
  proof -
    from occ [of k] that have "(\<Sum>p = 0..<N. count_list (child_list (entries st ! p)) k) = 1"
      by (simp add: occurrences_def)
    then have "\<exists>a\<in>{0..<N}. count_list (child_list (entries st ! a)) k = 1 \<and>
        (\<forall>b\<in>{0..<N}. a \<noteq> b \<longrightarrow> count_list (child_list (entries st ! b)) k = 0)"
      by (intro sum_eq_1_iff [THEN iffD1]) simp_all
    then obtain a where a: "a < N" "count_list (child_list (entries st ! a)) k = 1"
      and others: "\<And>b. b < N \<Longrightarrow> a \<noteq> b \<Longrightarrow> count_list (child_list (entries st ! b)) k = 0"
      by auto
    from a have "k \<in> set (child_list (entries st ! a))"
      by (metis count_list_0_iff zero_neq_one)
    moreover have "p = a" if "p < N" "k \<in> set (child_list (entries st ! p))" for p
      using others [of p] that by (auto simp: count_list_0_iff)
    ultimately have "\<exists>!p. p < N \<and> k \<in> set (child_list (entries st ! p))"
      using a(1) by blast
    moreover have "count_list (child_list (entries st ! p)) k \<le> 1" if "p < N" for p
      using a(2) others [of p] that by (cases "p = a") simp_all
    ultimately show ?thesis by blast
  qed
  have no_root: "0 \<notin> set (child_list (entries st ! p))" if "p < N" for p
  proof -
    from occ [of 0] have "(\<Sum>p = 0..<N. count_list (child_list (entries st ! p)) 0) = 0"
      by (simp add: occurrences_def)
    with that have "count_list (child_list (entries st ! p)) 0 = 0" by simp
    then show ?thesis by (simp add: count_list_0_iff)
  qed
  have "map (\<lambda>e. (size_e e, components e)) (entries st) = map (\<lambda>e. (size_e e, components e)) es'"
    using len comps sizes by (intro nth_equalityI) (simp_all add: N_def)
  then have records: "mset (map (\<lambda>e. (size_e e, components e)) (entries st)) =
      mset (map (\<lambda>e. (size_e e, components e)) es)"
    using perm by (simp add: mset_map)
  have A: "\<forall>p<N. \<forall>c\<in>set (child_list (entries st ! p)).
      c < N \<and> butlast (components (entries st ! c)) = components (entries st ! p)"
    using prefix len by simp
  have B: "\<forall>k<N. k \<noteq> 0 \<longrightarrow>
      (\<exists>!p. p < N \<and> k \<in> set (child_list (entries st ! p))) \<and>
      (\<forall>p<N. count_list (child_list (entries st ! p)) k \<le> 1)"
    using once by simp
  have C: "\<forall>p<N. 0 \<notin> set (child_list (entries st ! p))"
    using no_root by simp
  have D: "\<exists>es overruns. read_entries gets = Inr (es, overruns) \<and>
      mset (map (\<lambda>e. (size_e e, components e)) (entries st)) =
      mset (map (\<lambda>e. (size_e e, components e)) es)"
    using re records by (intro exI conjI)
  from A B C D show ?thesis
    unfolding len root by (intro conjI)
qed

lemmas model_defs = main_def read_entries_def parse_line_def sscanf_PRIu64_def decimal_def isdigit_def
  NUL_def NL_def DU_COMPONENTS_MAX_def DU_PATH_MAX_def n_components_def update_entry_def
  compare_entries_def compare_subtrees_def compare_sizes_def store_child_def u32_sub_def
  u32_add_def Let_def

lemmas model_simps = build_tree_preorder.simps attach_pass.simps count_pass.simps walk_subtree.simps
  build_tree_postorder.simps postorder_loop.simps postorder_walk.simps fill_children.simps
  compare_entries_loop.simps

lemma main_scenario_A: "main True scenario_A = Inr (Some tree_A)"
  by (simp add: scenario_A_def tree_A_def model_defs model_simps)

text \<open>
  C1. The two builders do not agree. On the records of \<^verbatim>\<open>a\<close> with the children
  \<^verbatim>\<open>a/x\<close> and \<^verbatim>\<open>a/y\<close>, in post-order, the post-order variant stores
  \<^verbatim>\<open>&entries[0]\<close> into the array \<^verbatim>\<open>entries[1].children\<close> of no cells, which is
  undefined behaviour, and no tree results; the pre-order variant builds the tree with
  the root at depth 0 and both children at depth 1.
\<close>

theorem postorder_preorder_disagree:
  "main False [(7, ''40 a/x''), (7, ''60 a/y''), (6, ''100 a'')] = Inl Undefined_behaviour \<and>
   main True [(7, ''40 a/x''), (7, ''60 a/y''), (6, ''100 a'')] = Inr (Some tree_A)"
  by (simp add: tree_A_def model_defs model_simps)

text \<open>
  C2. \<^verbatim>\<open>compare_subtrees\<close> reads the 64-bit sizes into \<^verbatim>\<open>int\<close> and compares them
  as \<^verbatim>\<open>uint32_t\<close>: the child \<^verbatim>\<open>a/c\<close> of size 1 is listed before the child
  \<^verbatim>\<open>a/b\<close> of size \<open>2 ^ 32\<close>, whose low 32 bits are 0.
\<close>

theorem sibling_order_truncates_size:
  "main True [(4, ''5 a''), (17, ''4294967296 a/b''), (6, ''1 a/c'')] =
     Inr (Some
       \<lparr>entries =
          [\<lparr>size_e = 5, components = [''a''], depth = Some 0,
              n_children = 2, children = [Some 2, Some 1]\<rparr>,
           \<lparr>size_e = 4294967296, components = [''a'', ''b''], depth = Some 1,
              n_children = 0, children = []\<rparr>,
           \<lparr>size_e = 1, components = [''a'', ''c''], depth = Some 1,
              n_children = 0, children = []\<rparr>],
        root_entry = 0, base_depth = 1\<rparr>)"
proof -
  have low: "(4294967296 :: 32 word) = 0" by simp
  show ?thesis
    by (simp add: model_defs model_simps low)
qed

text \<open>
  C3, as stated, fails: the pre-order builder checks the number of components of a
  child, never its leading components. After the records \<^verbatim>\<open>a\<close> and \<^verbatim>\<open>b/c\<close> it
  completes with \<^verbatim>\<open>b/c\<close> a child of \<^verbatim>\<open>a\<close>.
\<close>

theorem preorder_foreign_child:
  "main True [(4, ''5 a''), (6, ''1 b/c'')] =
     Inr (Some
       \<lparr>entries =
          [\<lparr>size_e = 5, components = [''a''], depth = Some 0,
              n_children = 1, children = [Some 1]\<rparr>,
           \<lparr>size_e = 1, components = [''b'', ''c''], depth = Some 1,
              n_children = 0, children = []\<rparr>],
        root_entry = 0, base_depth = 1\<rparr>) \<and>
   butlast [''b'', ''c''] \<noteq> [''a'']"
  by (simp add: model_defs model_simps)

theorem preorder_parent_prefix_witness:
  "main True scenario_A = Inr (Some tree_A) \<and>
   child_list (entries tree_A ! 0) = [2, 1] \<and>
   butlast (components (entries tree_A ! 2)) = components (entries tree_A ! 0) \<and>
   butlast (components (entries tree_A ! 1)) = components (entries tree_A ! 0)"
proof -
  have h: "\<forall>e\<in>set (entries tree_A).
      take (base_depth tree_A) (components e) = components (entries tree_A ! root_entry tree_A)"
    by (simp add: tree_A_def)
  have c: "child_list (entries tree_A ! 0) = [2, 1]"
    by (simp add: tree_A_def child_list_def)
  from preorder_parent_prefix [OF main_scenario_A h] c main_scenario_A show ?thesis
    by (simp add: tree_A_def)
qed

text \<open>
  C4, as stated, fails: on the records \<^verbatim>\<open>a/b/c\<close> and \<^verbatim>\<open>a\<close>, with no record
  of \<^verbatim>\<open>a/b\<close>, the post-order variant ends in undefined behaviour, not in a diagnostic
  that cites an index.
\<close>

theorem postorder_malformed_no_diagnostic:
  "main False [(9, ''1 a/b/c''), (4, ''2 a'')] = Inl Undefined_behaviour"
  by (simp add: model_defs model_simps)

text \<open>
  C4, amended. \<^verbatim>\<open>build_tree_postorder\<close> has no check of the hierarchy: neither the
  builder nor the post-order variant of \<^verbatim>\<open>main\<close> ever ends in a diagnostic that cites
  a record index.
\<close>

theorem postorder_no_index_error:
  "build_tree_postorder st start end' d \<noteq> Inl (Index_error dg k) \<and>
   main False gets \<noteq> Inl (Index_error dg k)"
proof
  show "build_tree_postorder st start end' d \<noteq> Inl (Index_error dg k)"
    by (auto dest: postorder_failure)
  show "main False gets \<noteq> Inl (Index_error dg k)"
  proof (cases "read_entries gets")
    case (Inl g)
    then have "main False gets = Inl g" by (simp add: main_def)
    with Inl show ?thesis by (auto dest: read_entries_failure)
  next
    case (Inr r)
    obtain es overruns where r: "r = (es, overruns)" by (cases r)
    with Inr have re: "read_entries gets = Inr (es, overruns)" by simp
    show ?thesis
    proof (cases "es = []")
      case True
      with re show ?thesis by (simp add: main_def)
    next
      case False
      with re show ?thesis by (simp add: main_postorder_undefined)
    qed
  qed
qed

text \<open>
  C6, as stated, fails in its example: the single record \<^verbatim>\<open>10 a/b/c\<close> is the root,
  with three components as the base depth, and the pre-order variant builds it.
\<close>

theorem preorder_lone_deep_record:
  "main True [(9, ''10 a/b/c'')] =
     Inr (Some
       \<lparr>entries =
          [\<lparr>size_e = 10, components = [''a'', ''b'', ''c''], depth = Some 0,
              n_children = 0, children = []\<rparr>],
        root_entry = 0, base_depth = 3\<rparr>)"
  by (simp add: model_defs model_simps)

lemma count_pass_total:
  "end' \<le> length (entries st) \<Longrightarrow> start < length (entries st) \<Longrightarrow>
     \<exists>st1. count_pass st start end' off i = Inr st1"
proof (induction st start end' off i rule: count_pass.induct)
  case (1 st start end' off i)
  show ?case
  proof (cases "i < end'")
    case False
    then show ?thesis by (subst count_pass.simps) simp
  next
    case True
    let ?st = "if n_components (entries st ! i) = off + 1
              then update_entry st start (\<lambda>e. e\<lparr>n_children := n_children e + 1\<rparr>) else st"
    from True "1.prems" have b: "i < length (entries st) \<and> start < length (entries st)" by simp
    have "\<exists>st1. count_pass ?st start end' off (i + 1) = Inr st1"
      using "1.prems" by (intro "1.IH" [OF True b]) auto
    with True b show ?thesis by (subst count_pass.simps) simp
  qed
qed

text \<open>
  C6, amended. In pass 2 a record met at the head of the loop whose number of
  components is not that of the parent plus one ends the build with the missing entry
  diagnostic and the record's index (counted from 1); so does a build whose first record
  after the node is such a record.
\<close>

theorem missing_entry_fatal:
  "(i < end' \<and> i < length (entries st) \<and> start < length (entries st) \<and>
      n_components (entries st ! start) = d + base_depth st \<and>
      n_components (entries st ! i) \<noteq> n_components (entries st ! start) + 1 \<longrightarrow>
      attach_pass st start end' d i n = Inl (Index_error Missing_entry (i + 1))) \<and>
   (start + 1 < end' \<and> end' \<le> length (entries st) \<and>
      n_components (entries st ! start) = d + base_depth st \<and>
      n_components (entries st ! (start + 1)) \<noteq> n_components (entries st ! start) + 1 \<longrightarrow>
      build_tree_preorder st start end' d = Inl (Index_error Missing_entry (start + 2)))"
proof (intro conjI impI)
  assume "i < end' \<and> i < length (entries st) \<and> start < length (entries st) \<and>
      n_components (entries st ! start) = d + base_depth st \<and>
      n_components (entries st ! i) \<noteq> n_components (entries st ! start) + 1"
  then show "attach_pass st start end' d i n = Inl (Index_error Missing_entry (i + 1))"
    by (subst attach_pass_unfold) simp
next
  assume h: "start + 1 < end' \<and> end' \<le> length (entries st) \<and>
      n_components (entries st ! start) = d + base_depth st \<and>
      n_components (entries st ! (start + 1)) \<noteq> n_components (entries st ! start) + 1"
  let ?st0 = "update_entry st start (\<lambda>e. e\<lparr>depth := Some d\<rparr>)"
  from h obtain st1 where cp: "count_pass ?st0 start end' (d + base_depth st) (start + 1) = Inr st1"
    using count_pass_total [of end' ?st0 start "d + base_depth st" "start + 1"] by auto
  from count_pass_result [OF cp] obtain c
    where st1: "st1 = update_entry ?st0 start (\<lambda>e. e\<lparr>n_children := c\<rparr>)" ..
  let ?sta = "update_entry st1 start (\<lambda>e. e\<lparr>children := replicate (n_children e) None\<rparr>)"
  have sta: "base_depth ?sta = base_depth st" "length (entries ?sta) = length (entries st)"
    "entries ?sta ! (start + 1) = entries st ! (start + 1)"
    by (simp_all add: st1 update_entry_nth)
  with h have "attach_pass ?sta start end' d (start + 1) 0 =
      Inl (Index_error Missing_entry (start + 1 + 1))"
    by (subst attach_pass_unfold) simp
  with h cp show "build_tree_preorder st start end' d = Inl (Index_error Missing_entry (start + 2))"
    by (subst build_tree_preorder_unfold) simp
qed

theorem missing_entry_fatal_witness:
  "attach_pass \<lparr>entries = [rec_of [''a''], rec_of [''a'', ''b'', ''c'']], root_entry = 0, base_depth = 1\<rparr>
     0 2 0 1 0 = Inl (Index_error Missing_entry 2) \<and>
   build_tree_preorder
     \<lparr>entries = [rec_of [''a''], rec_of [''a'', ''b'', ''c'']], root_entry = 0, base_depth = 1\<rparr>
     0 2 0 = Inl (Index_error Missing_entry 2)"
  using missing_entry_fatal [of 1 2
      "\<lparr>entries = [rec_of [''a''], rec_of [''a'', ''b'', ''c'']], root_entry = 0, base_depth = 1\<rparr>"
      0 0 0]
  by (simp add: rec_of_def n_components_def)

text \<open>
  C8. When the lines before it are read and parsed, a line whose run of leading digits
  is empty, or is followed by the end of the line or by a byte other than a space and
  a tab, ends the parse with the format error of that line's number; no records are
  returned.
\<close>

theorem format_error_fatal:
  assumes "read_entries before = Inr (es, overruns)"
    and "\<forall>(nchars, path)\<in>set before. nchars \<noteq> 0"
    and "nchars \<noteq> 0"
    and "path = digits @ rest" "\<forall>c\<in>set digits. isdigit c" "rest = [] \<or> \<not> isdigit (hd rest)"
    and "digits = [] \<or> rest = [] \<or> (hd rest \<noteq> CHR '' '' \<and> hd rest \<noteq> CHR 0x09)"
  shows "read_entries (before @ (nchars, path) # after) =
     Inl (Line_error Format_error (length before + 1))"
proof -
  from assms(4-7) have bad: "parse_line (length before + 1) path =
      Inl (Line_error Format_error (length before + 1))"
    by (rule parse_line_format_error)
  from assms(1) have "read_entries_loop before 0 [] [] = Inr (es, overruns)"
    by (simp add: read_entries_def)
  with assms(2) have "read_entries_loop (before @ (nchars, path) # after) 0 [] [] =
      read_entries_loop ((nchars, path) # after) (0 + length before) es overruns"
    by (rule read_entries_loop_append)
  also from assms(3) bad have "\<dots> = Inl (Line_error Format_error (length before + 1))"
    by (simp only: read_entries_loop_step) simp
  finally show ?thesis by (simp add: read_entries_def)
qed

theorem format_error_fatal_witness:
  "read_entries [(6, ''abc /x'')] = Inl (Line_error Format_error 1) \<and>
   read_entries [(6, ''12 a''), (3, ''7x'')] = Inl (Line_error Format_error 2)"
proof -
  have 1: "read_entries ([] @ (6, ''abc /x'') # []) = Inl (Line_error Format_error (length ([] :: (int \<times> string) list) + 1))"
    by (rule format_error_fatal [where digits = "[]" and rest = "''abc /x''" and es = "[]" and overruns = "[]"])
       (simp_all add: read_entries_def isdigit_def)
  have r: "read_entries [(6, ''12 a'')] =
      Inr ([\<lparr>size_e = 12, components = [''a''], depth = None, n_children = 0, children = []\<rparr>], [])"
    by (simp add: model_defs)
  have 2: "read_entries ([(6, ''12 a'')] @ (3, ''7x'') # []) =
      Inl (Line_error Format_error (length [(6 :: int, ''12 a'')] + 1))"
    by (rule format_error_fatal [where digits = "''7''" and rest = "''x''", OF r])
       (simp_all add: isdigit_def)
  from 1 2 show ?thesis by simp
qed

text \<open>
  C9, amended. \<^verbatim>\<open>main\<close> never reports the zero-length entry: every record the
  parser returns has at least one component.
\<close>

theorem zero_length_entry_unreachable:
  "main pflag gets \<noteq> Inl Zero_length_entry \<and>
   (\<forall>es overruns. read_entries gets = Inr (es, overruns) \<longrightarrow> (\<forall>e\<in>set es. 1 \<le> n_components e))"
proof
  show "main pflag gets \<noteq> Inl Zero_length_entry"
    using main_failure [of pflag gets Zero_length_entry] by blast
  show "\<forall>es overruns. read_entries gets = Inr (es, overruns) \<longrightarrow> (\<forall>e\<in>set es. 1 \<le> n_components e)"
    using read_entries_records by blast
qed

theorem zero_length_entry_unreachable_witness:
  "read_entries [(4, ''5 /'')] =
     Inr ([\<lparr>size_e = 5, components = ['''', ''''], depth = None, n_children = 0, children = []\<rparr>], []) \<and>
   1 \<le> n_components \<lparr>size_e = 5, components = ['''', ''''], depth = None, n_children = 0, children = []\<rparr> \<and>
   main True [(4, ''5 /'')] \<noteq> Inl Zero_length_entry"
proof -
  have r: "read_entries [(4, ''5 /'')] =
     Inr ([\<lparr>size_e = 5, components = ['''', ''''], depth = None, n_children = 0, children = []\<rparr>], [])"
    by (simp add: model_defs)
  from zero_length_entry_unreachable [of True "[(4, ''5 /'')]"] r show ?thesis
    by simp
qed

text \<open>
  C9, as stated, fails: no input of the pre-order variant ends in the zero-length entry
  failure.
\<close>

theorem no_input_has_empty_root:
  "\<not> (\<exists>gets. main True gets = Inl Zero_length_entry)"
  using main_failure by blast

text \<open>
  C10. On the empty input (the first read reports the end of input) both variants of
  \<^verbatim>\<open>main\<close> return with no tree and no failure, and the reader of the older revision
  returns no records.
\<close>

theorem empty_input:
  "main pflag [] = Inr None \<and> main pflag ((0, path) # gets) = Inr None \<and>
   read_entries_fgets [] = Inr []"
  by (simp add: main_def read_entries_def read_entries_fgets_def
      read_entries_fgets_loop_end fgets_def)

lemma read_entries_fgets_loop_line:
  assumes "fgets fresh_path du_buffer_length f = Some (map Some s @ Some NUL # cells, f')"
    and "NUL \<notin> set s" "parse_line (line_number + 1) s = Inr e"
  shows "read_entries_fgets_loop f line_number es =
     read_entries_fgets_loop f' (line_number + 1) (es @ [e])"
proof -
  from assms(2) have "c_string (map Some s @ Some NUL # cells) = Inr s"
    by (rule c_string_terminated)
  with assms(3) show ?thesis
    by (simp only: read_entries_fgets_loop_step [OF assms(1)] sum.case)
qed

text \<open>
  A whole line that fits the buffer is one record; bytes that fill the buffer before
  any newline are a record too, and the rest of the line is read as the next line.
\<close>

lemma read_entries_fgets_loop_whole_line:
  assumes "NL \<notin> set xs" "NUL \<notin> set xs" "length xs < du_buffer_length - 1"
    and "parse_line (line_number + 1) (xs @ [NL]) = Inr e"
  shows "read_entries_fgets_loop (xs @ NL # ys) line_number es =
     read_entries_fgets_loop ys (line_number + 1) (es @ [e])"
proof -
  have "fgets_read (du_buffer_length - 1) (xs @ NL # ys) = (xs @ [NL], ys)"
    using assms(1,3) by (rule fgets_read_line)
  then have "fgets fresh_path du_buffer_length (xs @ NL # ys) =
      Some (map Some (xs @ [NL]) @ Some NUL # drop (length (xs @ [NL]) + 1) fresh_path, ys)"
    unfolding fgets_def by simp
  moreover from assms(2) have "NUL \<notin> set (xs @ [NL])"
    by (simp add: NUL_def NL_def)
  ultimately show ?thesis
    using assms(4) by (rule read_entries_fgets_loop_line)
qed

lemma read_entries_fgets_loop_split_line:
  assumes "NL \<notin> set xs" "NUL \<notin> set xs" "length xs = du_buffer_length - 1"
    and "parse_line (line_number + 1) xs = Inr e"
  shows "read_entries_fgets_loop (xs @ ys) line_number es =
     read_entries_fgets_loop ys (line_number + 1) (es @ [e])"
proof -
  have "fgets_read (length xs) (xs @ ys) = (xs, ys)"
    using assms(1) by (rule fgets_read_full)
  moreover from assms(3) have "xs \<noteq> []"
    by (auto simp: du_buffer_length_def)
  ultimately have "fgets fresh_path du_buffer_length (xs @ ys) =
      Some (map Some xs @ Some NUL # drop (length xs + 1) fresh_path, ys)"
    unfolding fgets_def by (simp add: assms(3))
  then show ?thesis
    using assms(2,4) by (rule read_entries_fgets_loop_line)
qed

lemma long_line_parse:
  "parse_line 1 (''1 '' @ replicate 4114 (CHR ''a'')) =
     Inr \<lparr>size_e = 1, components = [replicate 4114 (CHR ''a'')], depth = None,
          n_children = 0, children = []\<rparr>"
proof -
  have "split_path (replicate 4114 (CHR ''a'')) [] [] = Inr ([] @ [[] @ replicate 4114 (CHR ''a'')])"
    by (rule split_path_plain) (simp add: NL_def NUL_def)
  then show ?thesis
    by (simp add: parse_line_def sscanf_PRIu64_def decimal_def isdigit_def)
qed

text \<open>
  C5. An overrun is not fatal. In \<^verbatim>\<open>duvis.c\<close> the line for which \<^verbatim>\<open>path_get\<close>
  returns \<open>-1\<close> is reported and then parsed into a record like any other. In the older
  revision the test of the last byte of the buffer never fires: a line of 4120 bytes is
  read as two records.
\<close>

theorem overrun_not_fatal:
  "read_entries [(- 1, ''1 a''), (4, ''2 b'')] =
     Inr ([\<lparr>size_e = 1, components = [''a''], depth = None, n_children = 0, children = []\<rparr>,
           \<lparr>size_e = 2, components = [''b''], depth = None, n_children = 0, children = []\<rparr>],
          [1]) \<and>
   read_entries_fgets (''1 '' @ replicate 4114 (CHR ''a'') @ ''2 b'' @ [NL]) =
     Inr [\<lparr>size_e = 1, components = [replicate 4114 (CHR ''a'')], depth = None,
           n_children = 0, children = []\<rparr>,
          \<lparr>size_e = 2, components = [''b''], depth = None, n_children = 0, children = []\<rparr>]"
proof
  show "read_entries [(- 1, ''1 a''), (4, ''2 b'')] =
     Inr ([\<lparr>size_e = 1, components = [''a''], depth = None, n_children = 0, children = []\<rparr>,
           \<lparr>size_e = 2, components = [''b''], depth = None, n_children = 0, children = []\<rparr>],
          [1])"
    by (simp add: model_defs)
next
  let ?e1 = "\<lparr>size_e = 1, components = [replicate 4114 (CHR ''a'')], depth = None,
           n_children = 0, children = []\<rparr>"
  let ?e2 = "\<lparr>size_e = 2, components = [''b''], depth = None, n_children = 0, children = []\<rparr>"
  let ?xs = "''1 '' @ replicate 4114 (CHR ''a'')"
  have "read_entries_fgets_loop (?xs @ (''2 b'' @ NL # [])) 0 [] =
      read_entries_fgets_loop (''2 b'' @ NL # []) (0 + 1) ([] @ [?e1])"
    by (rule read_entries_fgets_loop_split_line)
       (simp_all add: long_line_parse [simplified] NL_def NUL_def du_buffer_length_def
          DU_PATH_MAX_def)
  also have "\<dots> = read_entries_fgets_loop [] (0 + 1 + 1) (([] @ [?e1]) @ [?e2])"
    by (rule read_entries_fgets_loop_whole_line)
       (simp_all add: model_defs du_buffer_length_def)
  also have "\<dots> = Inr (([] @ [?e1]) @ [?e2])"
    by (rule read_entries_fgets_loop_end) (simp add: fgets_def)
  finally show "read_entries_fgets (''1 '' @ replicate 4114 (CHR ''a'') @ ''2 b'' @ [NL]) =
     Inr [?e1, ?e2]"
    by (simp add: read_entries_fgets_def)
qed

lemma never_buffer_overrun:
  "read_entries gets \<noteq> Inl (Line_error Buffer_overrun k) \<and>
   read_entries_fgets f \<noteq> Inl (Line_error Buffer_overrun k)"
  using read_entries_failure [of gets "Line_error Buffer_overrun k"]
    read_entries_fgets_loop_failure [of f 0 "[]" "Line_error Buffer_overrun k"]
  by (auto simp: read_entries_fgets_def)

end
